theory Spec2Isabelle
  imports Main "HOL-Library.AList"
begin

section \<open>The offline Reverie server: data model\<close>

text \<open>
  The development embeds \<^verbatim>\<open>reverie_offline.py\<close>: the constructor of
  \<^verbatim>\<open>ReverieServer\<close>, its tick loop \<^verbatim>\<open>start_server\<close> and the headless
  frontend \<^verbatim>\<open>sim_frontend\<close>.

  Python dictionaries are association lists: iteration order is insertion order, and
  \<^verbatim>\<open>d[k] = v\<close> is \<open>AList.update\<close> (a present key keeps its place, a new key goes
  to the end). A datetime is the number of seconds since \<^verbatim>\<open>datetime.min\<close>; adding a
  timedelta raises \<^verbatim>\<open>OverflowError\<close> outside the years 1 to 9999. Exceptions are
  values: a failing step returns \<open>Inl\<close> of the error and of the state reached when it
  was raised, since the mutations done so far stay done.
\<close>

type_synonym tile = "int \<times> int"

type_synonym event = "string \<times> string option \<times> string option \<times> string option"

datatype error =
    KeyError string
  | TypeError
  | FileNotFoundError string
  | OverflowError
  | AgentError string

subsection \<open>The maze\<close>

text \<open>
  Modelled from the spec: the class \<^verbatim>\<open>Maze\<close> of \<^verbatim>\<open>maze_neo\<close> is not part of the
  sources at hand. Its four mutators follow the contract of the tile event store: each
  tile holds a set of event records; adding and removing are idempotent; removing the
  events of a subject deletes every record of the tile with that subject; idling rewrites
  the matching record of the tile to the idle record of its subject and creates nothing
  when there is no match. The field \<open>calls\<close> is a history of the mutator calls, in the
  order they were made, so that statements about the order of calls can be written.
\<close>

datatype maze_call =
    AddEvent event tile
  | RemoveEvent event tile
  | TurnEventIdle event tile
  | RemoveSubjectEvents string tile

record maze =
  maze_name :: string
  tiles :: "tile \<Rightarrow> event set"
  calls :: "maze_call list"

definition idle_of :: "string \<Rightarrow> event" where
  "idle_of subject = (subject, None, None, None)"

definition add_event_from_tile :: "event \<Rightarrow> tile \<Rightarrow> maze \<Rightarrow> maze" where
  "add_event_from_tile curr_event t m =
     m\<lparr>tiles := (tiles m)(t := insert curr_event (tiles m t)),
       calls := calls m @ [AddEvent curr_event t]\<rparr>"

definition remove_event_from_tile :: "event \<Rightarrow> tile \<Rightarrow> maze \<Rightarrow> maze" where
  "remove_event_from_tile curr_event t m =
     m\<lparr>tiles := (tiles m)(t := tiles m t - {curr_event}),
       calls := calls m @ [RemoveEvent curr_event t]\<rparr>"

definition turn_event_from_tile_idle :: "event \<Rightarrow> tile \<Rightarrow> maze \<Rightarrow> maze" where
  "turn_event_from_tile_idle curr_event t m =
     m\<lparr>tiles := (tiles m)(t :=
         (if curr_event \<in> tiles m t
          then insert (idle_of (fst curr_event)) (tiles m t - {curr_event})
          else tiles m t)),
       calls := calls m @ [TurnEventIdle curr_event t]\<rparr>"

definition remove_subject_events_from_tile :: "string \<Rightarrow> tile \<Rightarrow> maze \<Rightarrow> maze" where
  "remove_subject_events_from_tile subject t m =
     m\<lparr>tiles := (tiles m)(t := Set.filter (\<lambda>e. fst e \<noteq> subject) (tiles m t)),
       calls := calls m @ [RemoveSubjectEvents subject t]\<rparr>"

subsection \<open>Personas\<close>

text \<open>
  Modelled from the spec: the class \<^verbatim>\<open>Persona\<close> is not part of the sources at hand.
  A persona is the state the server reads and writes: its name, the fields
  \<^verbatim>\<open>curr_tile\<close>, \<^verbatim>\<open>curr_time\<close>, \<^verbatim>\<open>planned_path\<close> and \<^verbatim>\<open>chat\<close> of its scratch,
  and the values of the two getters \<^verbatim>\<open>get_curr_event_and_desc\<close> and
  \<^verbatim>\<open>get_curr_obj_event_and_desc\<close>, which read the agent's own state.
\<close>

record persona =
  name :: string
  scratch_curr_tile :: "tile option"
  scratch_curr_time :: "int option"
  planned_path :: "tile list"
  get_curr_event_and_desc :: event
  get_curr_obj_event_and_desc :: event
  chat :: "(string \<times> string) list option"

datatype new_day = Not_New_Day | First_Day | New_Day

text \<open>
  Modelled from the spec: the perceive and decide cycle of an agent is opaque. It may
  fail, and it may change the agent's own state; the controller is the only writer of
  the registry and of the tile store. \<open>move\<close> returns the next tile, the status glyph
  and the description (the plan it also returns is not used by the server).
  \<open>strftime_day\<close> is the library call \<^verbatim>\<open>strftime('%a %b %d')\<close> and \<open>load_maze\<close> the
  constructor \<^verbatim>\<open>Maze(maze_name)\<close>.
\<close>

record externals =
  perceive :: "maze \<Rightarrow> persona \<Rightarrow> error + (event list \<times> persona)"
  move :: "maze \<Rightarrow> (string \<times> persona) list \<Rightarrow> persona \<Rightarrow> tile \<Rightarrow> int \<Rightarrow> event list
             \<Rightarrow> new_day \<Rightarrow> error + ((tile \<times> string \<times> string) \<times> persona)"
  strftime_day :: "int \<Rightarrow> string"
  load_maze :: "string \<Rightarrow> maze"

subsection \<open>The persisted tree of a simulation\<close>

record reverie_meta =
  meta_fork_sim_code :: string
  meta_start_date :: int
  meta_curr_time :: int
  meta_sec_per_step :: int
  meta_maze_name :: string
  meta_persona_names :: "string list"
  meta_step :: int

text \<open>
  An environment file maps a persona name either to a placement with the keys
  \<^verbatim>\<open>x\<close>, \<^verbatim>\<open>y\<close> and \<^verbatim>\<open>start_node\<close> (what the constructor reads) or to a bare tile
  (what \<^verbatim>\<open>sim_frontend\<close> writes).
\<close>

datatype env_entry = Placement int int tile | Bare tile

record movement =
  mv_movement :: tile
  mv_pronunciatio :: string
  mv_description :: string
  mv_chat :: "(string \<times> string) list option"

record movements =
  mvs_persona :: "(string \<times> movement) list"
  mvs_meta_curr_time :: int

record tree =
  reverie_meta_json :: "reverie_meta option"
  environment_dir :: "int \<rightharpoonup> (string \<times> env_entry) list"
  movement_dir :: "int \<rightharpoonup> movements"
  personas_dir :: "string \<rightharpoonup> persona"

text \<open>The storage directory maps a simulation code to its folder.\<close>

type_synonym storage = "string \<rightharpoonup> tree"

definition empty_tree :: tree where
  "empty_tree = \<lparr>reverie_meta_json = None, environment_dir = Map.empty,
                 movement_dir = Map.empty, personas_dir = Map.empty\<rparr>"

subsection \<open>The state of a run\<close>

record backend_data =
  bd_time :: int
  bd_persona :: "(string \<times> tile) list"

text \<open>
  The fields of the \<^verbatim>\<open>ReverieServer\<close> object, the module variable
  \<^verbatim>\<open>frontend_pos\<close>, the storage directory, and the two local variables of
  \<^verbatim>\<open>start_server\<close> that live across iterations of its loop.
\<close>

record state =
  fork_sim_code :: string
  sim_code :: string
  start_time :: int
  curr_time :: int
  sec_per_step :: int
  maze :: maze
  step :: int
  personas :: "(string \<times> persona) list"
  personas_tile :: "(string \<times> tile) list"
  frontend_pos :: "(string \<times> tile) list"
  fs :: storage
  backend_data :: backend_data
  game_obj_cleanup :: "(event \<times> tile) list"

subsection \<open>Datetime arithmetic\<close>

text \<open>Seconds from \<^verbatim>\<open>datetime.min\<close> to \<^verbatim>\<open>datetime.max\<close> (9999-12-31 23:59:59).\<close>

definition datetime_max :: int where
  "datetime_max = 315537897599"

definition datetime_add :: "int \<Rightarrow> int \<Rightarrow> error + int" where
  "datetime_add t seconds =
     (if 0 \<le> t + seconds \<and> t + seconds \<le> datetime_max then Inr (t + seconds)
      else Inl OverflowError)"

section \<open>The headless frontend\<close>

text \<open>
  \<^verbatim>\<open>sim_frontend(frontend_pos, backend_data, step, sim_code)\<close>: copies the positions
  reported by the backend into \<^verbatim>\<open>frontend_pos\<close>, reads them back into the
  environment, writes the environment to the file numbered \<^verbatim>\<open>step + 1\<close> of the
  simulation's environment folder (which must exist) and returns it.
\<close>

fun copy_items :: "(string \<times> tile) list \<Rightarrow> (string \<times> tile) list \<Rightarrow> (string \<times> tile) list" where
  "copy_items [] dst = dst"
| "copy_items ((k, v) # rest) dst = copy_items rest (AList.update k v dst)"

fun read_environment ::
  "(string \<times> tile) list \<Rightarrow> (string \<times> tile) list \<Rightarrow> (string \<times> tile) list
     \<Rightarrow> error + (string \<times> tile) list" where
  "read_environment [] fp environment = Inr environment"
| "read_environment ((k, v) # rest) fp environment =
     (case map_of fp k of
        None \<Rightarrow> Inl (KeyError k)
      | Some pos \<Rightarrow> read_environment rest fp (AList.update k pos environment))"

definition sim_frontend ::
  "(string \<times> tile) list \<Rightarrow> backend_data \<Rightarrow> int \<Rightarrow> string \<Rightarrow> storage
     \<Rightarrow> error + ((string \<times> tile) list \<times> (string \<times> tile) list \<times> storage)" where
  "sim_frontend fp bd stp code store =
     (let persona_dict = bd_persona bd;
          fp' = copy_items persona_dict fp;
          stp' = stp + 1
      in case read_environment persona_dict fp' [] of
           Inl e \<Rightarrow> Inl e
         | Inr environment \<Rightarrow>
             (case store code of
                None \<Rightarrow> Inl (FileNotFoundError code)
              | Some t \<Rightarrow>
                  Inr (environment, fp',
                       store(code \<mapsto> t\<lparr>environment_dir :=
                         (environment_dir t)(stp' \<mapsto> map (\<lambda>(k, pos). (k, Bare pos)) environment)\<rparr>))))"

section \<open>The tick loop\<close>

subsection \<open>Cleaning up the object events of the previous tick\<close>

fun cleanup :: "(event \<times> tile) list \<Rightarrow> maze \<Rightarrow> maze" where
  "cleanup [] m = m"
| "cleanup ((key, val) # rest) m = cleanup rest (turn_event_from_tile_idle key val m)"

subsection \<open>Moving the personas to the tiles the frontend reports\<close>

definition move_persona ::
  "string \<Rightarrow> persona \<Rightarrow> (string \<times> tile) list \<Rightarrow> state \<Rightarrow> (error \<times> state) + state" where
  "move_persona persona_name p frontend_data s =
     (case map_of (personas_tile s) persona_name of
        None \<Rightarrow> Inl (KeyError persona_name, s)
      | Some curr_tile \<Rightarrow>
          (case map_of frontend_data persona_name of
             None \<Rightarrow> Inl (KeyError persona_name, s)
           | Some new_tile \<Rightarrow>
               (let s1 = s\<lparr>personas_tile := AList.update persona_name new_tile (personas_tile s)\<rparr>;
                    s2 = s1\<lparr>maze := remove_subject_events_from_tile (name p) curr_tile (maze s1)\<rparr>;
                    s3 = s2\<lparr>maze := add_event_from_tile (get_curr_event_and_desc p) new_tile (maze s2)\<rparr>
                in if planned_path p = []
                   then (let obj = get_curr_obj_event_and_desc p;
                             s4 = s3\<lparr>game_obj_cleanup := AList.update obj new_tile (game_obj_cleanup s3)\<rparr>;
                             s5 = s4\<lparr>maze := add_event_from_tile obj new_tile (maze s4)\<rparr>;
                             blank = idle_of (fst obj)
                         in Inr (s5\<lparr>maze := remove_event_from_tile blank new_tile (maze s5)\<rparr>))
                   else Inr s3)))"

fun move_personas ::
  "(string \<times> persona) list \<Rightarrow> (string \<times> tile) list \<Rightarrow> state \<Rightarrow> (error \<times> state) + state" where
  "move_personas [] frontend_data s = Inr s"
| "move_personas ((persona_name, p) # rest) frontend_data s =
     (case move_persona persona_name p frontend_data s of
        Inl r \<Rightarrow> Inl r
      | Inr s' \<Rightarrow> move_personas rest frontend_data s')"

subsection \<open>Letting each persona perceive and move\<close>

definition decide_persona ::
  "externals \<Rightarrow> string \<Rightarrow> persona \<Rightarrow> state \<Rightarrow> (string \<times> movement) list
     \<Rightarrow> (error \<times> state) + (state \<times> (string \<times> movement) list)" where
  "decide_persona X persona_name p s mv =
     (case map_of (personas_tile s) persona_name of
        None \<Rightarrow> Inl (KeyError persona_name, s)
      | Some here \<Rightarrow>
          (let p1 = p\<lparr>scratch_curr_tile := Some here\<rparr>;
               nd = (case scratch_curr_time p1 of
                       None \<Rightarrow> First_Day
                     | Some t \<Rightarrow> if strftime_day X t \<noteq> strftime_day X (curr_time s)
                                then New_Day else Not_New_Day);
               p2 = p1\<lparr>scratch_curr_time := Some (curr_time s)\<rparr>;
               s1 = s\<lparr>personas := AList.update persona_name p2 (personas s)\<rparr>
           in case perceive X (maze s1) p2 of
                Inl e \<Rightarrow> Inl (e, s1)
              | Inr (perceived, p3) \<Rightarrow>
                  (let s2 = s1\<lparr>personas := AList.update persona_name p3 (personas s1)\<rparr>
                   in case move X (maze s2) (personas s2) p3 here (curr_time s2) perceived nd of
                        Inl e \<Rightarrow> Inl (e, s2)
                      | Inr ((next_tile, pronunciatio, description), p4) \<Rightarrow>
                          Inr (s2\<lparr>personas := AList.update persona_name p4 (personas s2),
                                  backend_data := (backend_data s2)\<lparr>bd_persona :=
                                    AList.update persona_name next_tile
                                      (bd_persona (backend_data s2))\<rparr>\<rparr>,
                               AList.update persona_name
                                 \<lparr>mv_movement = next_tile, mv_pronunciatio = pronunciatio,
                                  mv_description = description, mv_chat = chat p4\<rparr> mv))))"

fun decide_personas ::
  "externals \<Rightarrow> (string \<times> persona) list \<Rightarrow> state \<Rightarrow> (string \<times> movement) list
     \<Rightarrow> (error \<times> state) + (state \<times> (string \<times> movement) list)" where
  "decide_personas X [] s mv = Inr (s, mv)"
| "decide_personas X ((persona_name, p) # rest) s mv =
     (case decide_persona X persona_name p s mv of
        Inl r \<Rightarrow> Inl r
      | Inr (s', mv') \<Rightarrow> decide_personas X rest s' mv')"

subsection \<open>One tick\<close>

text \<open>
  The movement file is written into the simulation's folder, which
  \<^verbatim>\<open>os.makedirs\<close> creates when it is missing. The storage folder of \<^verbatim>\<open>utils\<close>
  and the relative path of \<^verbatim>\<open>sim_frontend\<close> are taken to be the same directory.
\<close>

definition write_movement :: "string \<Rightarrow> int \<Rightarrow> movements \<Rightarrow> storage \<Rightarrow> storage" where
  "write_movement code stp ms store =
     (let t = (case store code of None \<Rightarrow> empty_tree | Some t \<Rightarrow> t)
      in store(code \<mapsto> t\<lparr>movement_dir := (movement_dir t)(stp \<mapsto> ms)\<rparr>))"

text \<open>
  The body of \<^verbatim>\<open>if frontend_data is not None\<close>, without the decrement of the
  counter: cleanup, moves, decisions, the movement file, then the step and the clock.
\<close>

definition tick :: "externals \<Rightarrow> (string \<times> tile) list \<Rightarrow> state \<Rightarrow> (error \<times> state) + state" where
  "tick X frontend_data s =
     (let s0 = s\<lparr>maze := cleanup (game_obj_cleanup s) (maze s)\<rparr>;
          s1 = s0\<lparr>game_obj_cleanup := []\<rparr>
      in case move_personas (personas s1) frontend_data s1 of
           Inl r \<Rightarrow> Inl r
         | Inr s2 \<Rightarrow>
             (case decide_personas X (personas s2) s2 [] of
                Inl r \<Rightarrow> Inl r
              | Inr (s3, mv) \<Rightarrow>
                  (let ms = \<lparr>mvs_persona = mv, mvs_meta_curr_time = curr_time s3\<rparr>;
                       s4 = s3\<lparr>backend_data := (backend_data s3)\<lparr>bd_time := curr_time s3\<rparr>\<rparr>;
                       s5 = s4\<lparr>fs := write_movement (sim_code s4) (step s4) ms (fs s4)\<rparr>;
                       s6 = s5\<lparr>step := step s5 + 1\<rparr>
                   in case datetime_add (curr_time s6) (sec_per_step s6) of
                        Inl e \<Rightarrow> Inl (e, s6)
                      | Inr t \<Rightarrow> Inr (s6\<lparr>curr_time := t\<rparr>))))"

subsection \<open>The loop\<close>

text \<open>
  One poll of the frontend yields an environment or \<^verbatim>\<open>None\<close>. The loop is written
  over any such bridge, with a state \<open>'b\<close> of its own; \<^verbatim>\<open>start_server\<close> calls
  \<^verbatim>\<open>sim_frontend\<close>. The loop need not end, so it runs on fuel: one unit per
  iteration of \<^verbatim>\<open>while True\<close>. The sleep at the end of an iteration changes no
  state and is left out.
\<close>

type_synonym 'b bridge =
  "'b \<Rightarrow> state \<Rightarrow> (error \<times> state) + ((string \<times> tile) list option \<times> 'b \<times> state)"

definition on_frontend_data ::
  "externals \<Rightarrow> (string \<times> tile) list option \<Rightarrow> int \<Rightarrow> state \<Rightarrow> (error \<times> state) + (int \<times> state)" where
  "on_frontend_data X frontend_data int_counter s =
     (case frontend_data of
        None \<Rightarrow> Inr (int_counter, s)
      | Some d \<Rightarrow>
          (case tick X d s of
             Inl r \<Rightarrow> Inl r
           | Inr s' \<Rightarrow> Inr (int_counter - 1, s')))"

datatype outcome = Returned state | Raised error state | Out_Of_Fuel int state

fun server_loop :: "nat \<Rightarrow> 'b bridge \<Rightarrow> externals \<Rightarrow> 'b \<Rightarrow> int \<Rightarrow> state \<Rightarrow> outcome" where
  "server_loop 0 B X b int_counter s =
     (if int_counter = 0 then Returned s else Out_Of_Fuel int_counter s)"
| "server_loop (Suc fuel) B X b int_counter s =
     (if int_counter = 0 then Returned s
      else case B b s of
             Inl (e, s') \<Rightarrow> Raised e s'
           | Inr (frontend_data, b', s') \<Rightarrow>
               (case on_frontend_data X frontend_data int_counter s' of
                  Inl (e, s'') \<Rightarrow> Raised e s''
                | Inr (int_counter', s'') \<Rightarrow> server_loop fuel B X b' int_counter' s''))"

definition headless :: "unit bridge" where
  "headless b s =
     (case sim_frontend (frontend_pos s) (backend_data s) (step s) (sim_code s) (fs s) of
        Inl e \<Rightarrow>
          Inl (e, s\<lparr>frontend_pos := copy_items (bd_persona (backend_data s)) (frontend_pos s)\<rparr>)
      | Inr (environment, fp', store') \<Rightarrow>
          Inr (Some environment, b, s\<lparr>frontend_pos := fp', fs := store'\<rparr>))"

definition start_server_with ::
  "nat \<Rightarrow> 'b bridge \<Rightarrow> externals \<Rightarrow> 'b \<Rightarrow> int \<Rightarrow> state \<Rightarrow> outcome" where
  "start_server_with fuel B X b int_counter s =
     server_loop fuel B X b int_counter
       (s\<lparr>backend_data := \<lparr>bd_time = curr_time s, bd_persona = copy_items (frontend_pos s) []\<rparr>,
          game_obj_cleanup := []\<rparr>)"

definition start_server :: "nat \<Rightarrow> externals \<Rightarrow> int \<Rightarrow> state \<Rightarrow> outcome" where
  "start_server fuel X int_counter s = start_server_with fuel headless X () int_counter s"

section \<open>The constructor\<close>

text \<open>
  Modelled from the spec: \<^verbatim>\<open>copyanything\<close> of \<^verbatim>\<open>global_methods\<close> is not part of
  the sources at hand. It duplicates the whole tree of the source folder under the
  target name, and fails when there is no source folder.
\<close>

definition copyanything :: "string \<Rightarrow> string \<Rightarrow> storage \<Rightarrow> error + storage" where
  "copyanything src dst store =
     (case store src of
        None \<Rightarrow> Inl (FileNotFoundError src)
      | Some t \<Rightarrow> Inr (store(dst \<mapsto> t)))"

text \<open>
  The loop over \<^verbatim>\<open>reverie_meta['persona_names']\<close>. The constructor
  \<^verbatim>\<open>Persona(persona_name, persona_folder)\<close> is the persisted state of that folder
  under the given name.
\<close>

fun load_personas ::
  "string list \<Rightarrow> (string \<times> env_entry) list \<Rightarrow> tree \<Rightarrow> state \<Rightarrow> (error \<times> state) + state" where
  "load_personas [] init_env t s = Inr s"
| "load_personas (persona_name # rest) init_env t s =
     (case map_of init_env persona_name of
        None \<Rightarrow> Inl (KeyError persona_name, s)
      | Some (Bare pos) \<Rightarrow> Inl (TypeError, s)
      | Some (Placement p_x p_y start_node) \<Rightarrow>
          (case personas_dir t persona_name of
             None \<Rightarrow> Inl (FileNotFoundError persona_name, s)
           | Some saved \<Rightarrow>
               (let curr_persona = saved\<lparr>name := persona_name\<rparr>
                in load_personas rest init_env t
                     (s\<lparr>personas := AList.update persona_name curr_persona (personas s),
                        personas_tile := AList.update persona_name start_node (personas_tile s),
                        frontend_pos := AList.update persona_name start_node (frontend_pos s),
                        maze := add_event_from_tile (get_curr_event_and_desc curr_persona)
                                  start_node (maze s)\<rparr>))))"

text \<open>
  \<^verbatim>\<open>ReverieServer.__init__(fork_sim_code, sim_code)\<close>, given the module variable
  \<^verbatim>\<open>frontend_pos\<close> and the storage. An error comes with the storage as it was left.
  Simulation codes are plain folder names. The calls that point \<^verbatim>\<open>metrics\<close> and
  \<^verbatim>\<open>utils\<close> at the folder, and the parsing of the dates of the metadata, are left
  out: the metadata holds the times as numbers.
\<close>

definition init ::
  "externals \<Rightarrow> string \<Rightarrow> string \<Rightarrow> (string \<times> tile) list \<Rightarrow> storage
     \<Rightarrow> (error \<times> storage) + state" where
  "init X fork_code code fp store =
     (let store1 = (if store code \<noteq> None then store(code := None) else store)
      in case copyanything fork_code code store1 of
           Inl e \<Rightarrow> Inl (e, store1)
         | Inr store2 \<Rightarrow>
             (case store2 code of
                None \<Rightarrow> Inl (FileNotFoundError code, store2)
              | Some t \<Rightarrow>
                  (case reverie_meta_json t of
                     None \<Rightarrow> Inl (FileNotFoundError ''reverie/meta.json'', store2)
                   | Some reverie_meta \<Rightarrow>
                       (let t' = t\<lparr>reverie_meta_json :=
                                   Some (reverie_meta\<lparr>meta_fork_sim_code := fork_code\<rparr>)\<rparr>;
                            store3 = store2(code \<mapsto> t')
                        in case environment_dir t' (meta_step reverie_meta) of
                             None \<Rightarrow> Inl (FileNotFoundError ''environment'', store3)
                           | Some init_env \<Rightarrow>
                               (case load_personas (meta_persona_names reverie_meta) init_env t'
                                       \<lparr>fork_sim_code = fork_code, sim_code = code,
                                        start_time = meta_start_date reverie_meta,
                                        curr_time = meta_curr_time reverie_meta,
                                        sec_per_step = meta_sec_per_step reverie_meta,
                                        maze = load_maze X (meta_maze_name reverie_meta),
                                        step = meta_step reverie_meta,
                                        personas = [], personas_tile = [],
                                        frontend_pos = fp, fs = store3,
                                        backend_data = \<lparr>bd_time = meta_curr_time reverie_meta,
                                                        bd_persona = []\<rparr>,
                                        game_obj_cleanup = []\<rparr> of
                                  Inl (e, s) \<Rightarrow> Inl (e, store3)
                                | Inr s \<Rightarrow> Inr s)))))"

section \<open>Example inputs\<close>

text \<open>
  A world with two personas for the concrete evaluations below: Ada has arrived (her
  planned path is empty) and uses the stove; Bob is still walking. The agent runtime
  \<open>X_stay\<close> perceives nothing and decides to stay; \<open>X_fail\<close> fails in the perceive
  call of Ada.
\<close>

definition stove_event :: event where
  "stove_event = (''kitchen:stove'', Some ''is'', Some ''heating'', Some ''heating soup'')"

definition ada :: persona where
  "ada = \<lparr>name = ''Ada'', scratch_curr_tile = None, scratch_curr_time = None,
          planned_path = [],
          get_curr_event_and_desc = (''Ada'', Some ''is'', Some ''cooking'', Some ''cooking soup''),
          get_curr_obj_event_and_desc = stove_event, chat = None\<rparr>"

definition bob :: persona where
  "bob = \<lparr>name = ''Bob'', scratch_curr_tile = None, scratch_curr_time = None,
          planned_path = [(3, 4)],
          get_curr_event_and_desc = (''Bob'', Some ''is'', Some ''walking'', Some ''walking home''),
          get_curr_obj_event_and_desc = (''bedroom:bed'', Some ''is'', Some ''used'', Some ''slept in''),
          chat = None\<rparr>"

definition maze0 :: maze where
  "maze0 = \<lparr>maze_name = ''the_ville'', tiles = (\<lambda>t. {}), calls = []\<rparr>"

definition X_stay :: externals where
  "X_stay = \<lparr>perceive = (\<lambda>m p. Inr ([], p)),
             move = (\<lambda>m ps p here now perceived nd. Inr ((here, ''zz'', ''stays''), p)),
             strftime_day = (\<lambda>t. ''day''),
             load_maze = (\<lambda>n. maze0\<lparr>maze_name := n\<rparr>)\<rparr>"

definition X_fail :: externals where
  "X_fail = X_stay\<lparr>perceive :=
     (\<lambda>m p. if name p = ''Ada'' then Inl (AgentError ''Ada'') else Inr ([], p))\<rparr>"

definition base_tree :: tree where
  "base_tree =
     \<lparr>reverie_meta_json = Some \<lparr>meta_fork_sim_code = ''base'', meta_start_date = 0,
         meta_curr_time = 0, meta_sec_per_step = 600, meta_maze_name = ''the_ville'',
         meta_persona_names = [''Ada'', ''Bob''], meta_step = 0\<rparr>,
      environment_dir = [0 \<mapsto> [(''Ada'', Placement 10 10 (10, 10)), (''Bob'', Placement 2 2 (2, 2))]],
      movement_dir = Map.empty,
      personas_dir = [''Ada'' \<mapsto> ada, ''Bob'' \<mapsto> bob]\<rparr>"

definition store0 :: storage where
  "store0 = [''base'' \<mapsto> base_tree, ''trial1'' \<mapsto> empty_tree]"

definition state0 :: state where
  "state0 =
     \<lparr>fork_sim_code = ''base'', sim_code = ''trial1'', start_time = 0, curr_time = 0,
      sec_per_step = 600, maze = maze0, step = 0,
      personas = [(''Ada'', ada), (''Bob'', bob)],
      personas_tile = [(''Ada'', (10, 10)), (''Bob'', (2, 2))],
      frontend_pos = [(''Ada'', (10, 10)), (''Bob'', (2, 2))],
      fs = [''trial1'' \<mapsto> base_tree],
      backend_data = \<lparr>bd_time = 0, bd_persona = []\<rparr>,
      game_obj_cleanup = []\<rparr>"

definition env0 :: "(string \<times> tile) list" where
  "env0 = [(''Ada'', (10, 10)), (''Bob'', (2, 3))]"

text \<open>A bridge for tests: it answers the polls from a script and touches nothing.\<close>

fun scripted :: "(string \<times> tile) list option list bridge" where
  "scripted [] s = Inr (None, [], s)"
| "scripted (r # rs) s = Inr (r, rs, s)"


section \<open>Reading the history of maze calls\<close>

text \<open>The state a tick leaves behind, whether it completed or raised.\<close>

definition state_of :: "(error \<times> state) + state \<Rightarrow> state" where
  "state_of r = (case r of Inl (e, s) \<Rightarrow> s | Inr s \<Rightarrow> s)"

definition is_idle_call :: "maze_call \<Rightarrow> bool" where
  "is_idle_call c = (case c of TurnEventIdle e t \<Rightarrow> True | _ \<Rightarrow> False)"

definition idle_call :: "event \<times> tile \<Rightarrow> maze_call" where
  "idle_call entry = TurnEventIdle (fst entry) (snd entry)"

text \<open>
  The maze calls the controller is to make for one agent, in the words of the
  specification: remove the agent's events from its previous tile and add its current
  event at the new tile; then, if the agent has arrived, spawn its object event at the
  new tile and remove the idle record of that object there.
\<close>

definition spec_object_calls :: "persona \<Rightarrow> tile \<Rightarrow> maze_call list" where
  "spec_object_calls p new_tile =
     (if planned_path p = []
      then [AddEvent (get_curr_obj_event_and_desc p) new_tile,
            RemoveEvent (idle_of (fst (get_curr_obj_event_and_desc p))) new_tile]
      else [])"

definition spec_move_calls :: "persona \<Rightarrow> tile \<Rightarrow> tile \<Rightarrow> maze_call list" where
  "spec_move_calls p curr_tile new_tile =
     [RemoveSubjectEvents (name p) curr_tile,
      AddEvent (get_curr_event_and_desc p) new_tile] @ spec_object_calls p new_tile"

text \<open>
  The maze calls of the move phase of a tick, in the words of the specification: the calls
  for each agent in registry order, from its previous tile in the registry to its new tile
  in the update; the phase ends at an agent that has no tile in one of the two.
\<close>

fun spec_phase_calls ::
  "(string \<times> persona) list \<Rightarrow> (string \<times> tile) list \<Rightarrow> (string \<times> tile) list \<Rightarrow> maze_call list" where
  "spec_phase_calls [] registry_tiles update = []"
| "spec_phase_calls ((n, p) # rest) registry_tiles update =
     (case map_of registry_tiles n of
        None \<Rightarrow> []
      | Some curr_tile \<Rightarrow>
          (case map_of update n of
             None \<Rightarrow> []
           | Some new_tile \<Rightarrow>
               spec_move_calls p curr_tile new_tile @ spec_phase_calls rest registry_tiles update))"

section \<open>Looking at the storage\<close>

text \<open>The storage a construction leaves behind, whether it succeeded or raised.\<close>

definition storage_after :: "(error \<times> storage) + state \<Rightarrow> storage" where
  "storage_after r = (case r of Inl (e, store) \<Rightarrow> store | Inr s \<Rightarrow> fs s)"

text \<open>
  Somebody else writes the folder of a simulation: \<open>overwrite_folder c x\<close> replaces the
  folder \<open>c\<close> of the storage by \<open>x\<close> (a changed tree, or \<open>None\<close> when the folder is
  deleted), in a state and in the outcome of a run.
\<close>

definition overwrite_folder :: "string \<Rightarrow> tree option \<Rightarrow> state \<Rightarrow> state" where
  "overwrite_folder c x s = s\<lparr>fs := (fs s)(c := x)\<rparr>"

definition overwrite_folder_outcome :: "string \<Rightarrow> tree option \<Rightarrow> outcome \<Rightarrow> outcome" where
  "overwrite_folder_outcome c x out =
     (case out of
        Returned s \<Rightarrow> Returned (overwrite_folder c x s)
      | Raised e s \<Rightarrow> Raised e (overwrite_folder c x s)
      | Out_Of_Fuel n s \<Rightarrow> Out_Of_Fuel n (overwrite_folder c x s))"

text \<open>The error a run ended with, if it ended with one.\<close>

definition raised_error :: "outcome \<Rightarrow> error option" where
  "raised_error out =
     (case out of Returned s \<Rightarrow> None | Raised e s \<Rightarrow> Some e | Out_Of_Fuel n s \<Rightarrow> None)"

text \<open>The state a run ended in or was left in.\<close>

definition outcome_state :: "outcome \<Rightarrow> state" where
  "outcome_state out =
     (case out of Returned s \<Rightarrow> s | Raised e s \<Rightarrow> s | Out_Of_Fuel n s \<Rightarrow> s)"

text \<open>The example world at the last second a datetime can hold.\<close>

definition state_last :: state where
  "state_last = state0\<lparr>curr_time := datetime_max\<rparr>"

text \<open>
  A world in which two agents have arrived at the same object on two tiles: Ada at
  (10, 10) and Cy at (5, 5) both heat the stove, with the same object event.
\<close>

definition cy :: persona where
  "cy = \<lparr>name = ''Cy'', scratch_curr_tile = None, scratch_curr_time = None,
         planned_path = [],
         get_curr_event_and_desc = (''Cy'', Some ''is'', Some ''cooking'', Some ''cooking rice''),
         get_curr_obj_event_and_desc = stove_event, chat = None\<rparr>"

definition state2 :: state where
  "state2 = state0\<lparr>personas := [(''Ada'', ada), (''Cy'', cy)],
                   personas_tile := [(''Ada'', (10, 10)), (''Cy'', (5, 5))],
                   frontend_pos := [(''Ada'', (10, 10)), (''Cy'', (5, 5))]\<rparr>"

definition env2 :: "(string \<times> tile) list" where
  "env2 = [(''Ada'', (10, 10)), (''Cy'', (5, 5))]"

text \<open>A storage in which the target of the example fork exists, with a movement file.\<close>

definition older_tree :: tree where
  "older_tree = base_tree\<lparr>movement_dir := [0 \<mapsto> \<lparr>mvs_persona = [], mvs_meta_curr_time = 0\<rparr>]\<rparr>"

definition store1 :: storage where
  "store1 = [''base'' \<mapsto> base_tree, ''trial1'' \<mapsto> older_tree]"

section \<open>What the phases of a tick leave alone\<close>

lemma move_persona_frame:
  "move_persona n p d s = Inr s' \<Longrightarrow>
     step s' = step s \<and> curr_time s' = curr_time s \<and> sec_per_step s' = sec_per_step s \<and>
     fs s' = fs s \<and> sim_code s' = sim_code s \<and> personas s' = personas s \<and>
     frontend_pos s' = frontend_pos s \<and> backend_data s' = backend_data s"
  by (auto simp: move_persona_def Let_def split: option.splits if_splits)

lemma move_personas_frame:
  "move_personas ps d s = Inr s' \<Longrightarrow>
     step s' = step s \<and> curr_time s' = curr_time s \<and> sec_per_step s' = sec_per_step s \<and>
     fs s' = fs s \<and> sim_code s' = sim_code s \<and> personas s' = personas s \<and>
     frontend_pos s' = frontend_pos s \<and> backend_data s' = backend_data s"
proof (induction ps arbitrary: s)
  case Nil
  then show ?case by simp
next
  case (Cons a ps)
  obtain n p where a: "a = (n, p)" by (cases a)
  from Cons.prems a obtain s1 where
    1: "move_persona n p d s = Inr s1" and 2: "move_personas ps d s1 = Inr s'"
    by (auto split: sum.splits)
  from move_persona_frame[OF 1] Cons.IH[OF 2] show ?case by simp
qed

lemma decide_persona_frame:
  "decide_persona X n p s mv = Inr (s', mv') \<Longrightarrow>
     step s' = step s \<and> curr_time s' = curr_time s \<and> sec_per_step s' = sec_per_step s \<and>
     fs s' = fs s \<and> sim_code s' = sim_code s \<and> maze s' = maze s \<and>
     frontend_pos s' = frontend_pos s \<and> game_obj_cleanup s' = game_obj_cleanup s \<and>
     personas_tile s' = personas_tile s"
  by (auto simp: decide_persona_def Let_def split: option.splits sum.splits prod.splits)

lemma decide_personas_frame:
  "decide_personas X ps s mv = Inr (s', mv') \<Longrightarrow>
     step s' = step s \<and> curr_time s' = curr_time s \<and> sec_per_step s' = sec_per_step s \<and>
     fs s' = fs s \<and> sim_code s' = sim_code s \<and> maze s' = maze s \<and>
     frontend_pos s' = frontend_pos s \<and> game_obj_cleanup s' = game_obj_cleanup s \<and>
     personas_tile s' = personas_tile s"
proof (induction ps arbitrary: s mv)
  case Nil
  then show ?case by simp
next
  case (Cons a ps)
  obtain n p where a: "a = (n, p)" by (cases a)
  from Cons.prems a obtain s1 mv1 where
    1: "decide_persona X n p s mv = Inr (s1, mv1)" and 2: "decide_personas X ps s1 mv1 = Inr (s', mv')"
    by (auto split: sum.splits)
  from decide_persona_frame[OF 1] Cons.IH[OF 2] show ?case by simp
qed

lemma tick_advances:
  assumes "tick X d s = Inr s'"
  shows "step s' = step s + 1 \<and> curr_time s' = curr_time s + sec_per_step s
         \<and> sec_per_step s' = sec_per_step s"
proof -
  let ?s1 = "s\<lparr>maze := cleanup (game_obj_cleanup s) (maze s), game_obj_cleanup := []\<rparr>"
  from assms obtain s2 where 2: "move_personas (personas ?s1) d ?s1 = Inr s2"
    by (auto simp: tick_def Let_def split: sum.splits)
  with assms obtain s3 mv where 3: "decide_personas X (personas s2) s2 [] = Inr (s3, mv)"
    by (auto simp: tick_def Let_def split: sum.splits prod.splits)
  from assms 2 3 have "datetime_add (curr_time s3) (sec_per_step s3) = Inr (curr_time s')"
     and "step s' = step s3 + 1" and "sec_per_step s' = sec_per_step s3"
    by (auto simp: tick_def Let_def split: sum.splits)
  moreover have "curr_time s' = curr_time s3 + sec_per_step s3"
    using calculation(1) by (auto simp: datetime_add_def split: if_splits)
  ultimately show ?thesis
    using move_personas_frame[OF 2] decide_personas_frame[OF 3] by simp
qed


lemma headless_frame:
  "headless b s = Inr (fd, b', s') \<Longrightarrow>
     fd \<noteq> None \<and> step s' = step s \<and> curr_time s' = curr_time s \<and> sec_per_step s' = sec_per_step s"
  by (auto simp: headless_def split: sum.splits)

lemma server_loop_headless:
  "case server_loop fuel headless X b n s of
     Returned s' \<Rightarrow> 0 \<le> n \<and> step s' = step s + n
                    \<and> curr_time s' = curr_time s + n * sec_per_step s
   | Raised e s' \<Rightarrow> True
   | Out_Of_Fuel c s' \<Rightarrow> c = n - int fuel \<and> c \<noteq> 0 \<and> (0 \<le> n \<longrightarrow> int fuel < n)
                    \<and> step s' = step s + int fuel"
proof (induction fuel arbitrary: b n s)
  case 0
  then show ?case by simp
next
  case (Suc fuel)
  show ?case
  proof (cases "n = 0")
    case True
    then show ?thesis by simp
  next
    case n: False
    show ?thesis
    proof (cases "headless b s")
      case (Inl r)
      then show ?thesis using n by (cases r) simp
    next
      case (Inr r)
      obtain fd b' s1 where r: "r = (fd, b', s1)" by (cases r)
      from headless_frame[OF Inr[unfolded r]] obtain d where
        fd: "fd = Some d" and h: "step s1 = step s" "curr_time s1 = curr_time s"
          "sec_per_step s1 = sec_per_step s"
        by auto
      show ?thesis
      proof (cases "tick X d s1")
        case (Inl q)
        then show ?thesis using n Inr r fd by (cases q) (simp add: on_frontend_data_def)
      next
        case tk: (Inr s2)
        have eq: "server_loop (Suc fuel) headless X b n s = server_loop fuel headless X b' (n - 1) s2"
          using n Inr r fd tk by (simp add: on_frontend_data_def)
        from tick_advances[OF tk] h have adv: "step s2 = step s + 1"
          "curr_time s2 = curr_time s + sec_per_step s" "sec_per_step s2 = sec_per_step s"
          by simp_all
        show ?thesis
          using Suc.IH[where b=b' and n="n - 1" and s=s2] n unfolding eq adv
          by (auto split: outcome.splits simp: algebra_simps)
      qed
    qed
  qed
qed


section \<open>Unfolding the model on the example inputs\<close>

lemmas ex_defs = X_stay_def X_fail_def state0_def env0_def ada_def bob_def maze0_def stove_event_def
  base_tree_def store0_def empty_tree_def
lemmas op_defs = tick_def move_persona_def decide_persona_def datetime_add_def datetime_max_def
  write_movement_def add_event_from_tile_def remove_event_from_tile_def
  turn_event_from_tile_idle_def remove_subject_events_from_tile_def idle_of_def
  headless_def sim_frontend_def start_server_def start_server_with_def on_frontend_data_def

section \<open>The step counter and the clock\<close>

text \<open>
  Claim C1. Every completed tick increases the step counter by exactly 1 and the current
  time by exactly \<open>sec_per_step\<close>; a run of \<open>start_server\<close> that returns after
  \<open>n\<close> ticks has added \<open>n\<close> to the step and \<open>n * sec_per_step\<close> to the clock, and
  with 600 seconds per step three ticks add 3 steps and 1800 seconds.
\<close>

theorem tick_advances_step_and_clock:
  "(tick X d s = Inr s' \<longrightarrow>
      step s' = step s + 1 \<and> curr_time s' = curr_time s + sec_per_step s) \<and>
   (start_server fuel X n s = Returned s'' \<longrightarrow>
      step s'' = step s + n \<and> curr_time s'' = curr_time s + n * sec_per_step s) \<and>
   (sec_per_step s = 600 \<and> start_server fuel X 3 s = Returned s'' \<longrightarrow>
      step s'' = step s + 3 \<and> curr_time s'' = curr_time s + 1800)"
proof -
  have loop: "step t = step s + k \<and> curr_time t = curr_time s + k * sec_per_step s"
    if "start_server fuel X k s = Returned t" for k t
    using that
      server_loop_headless[where fuel=fuel and X=X and b="()" and n=k and s=
        "s\<lparr>backend_data := \<lparr>bd_time = curr_time s, bd_persona = copy_items (frontend_pos s) []\<rparr>,
           game_obj_cleanup := []\<rparr>"]
    by (simp add: start_server_def start_server_with_def)
  show ?thesis
    using tick_advances[of X d s s'] loop[of n s''] loop[of 3 s''] by auto
qed

theorem tick_advances_step_and_clock_witness:
  "\<not> isl (tick X_stay env0 state0) \<and>
   step (projr (tick X_stay env0 state0)) = 1 \<and>
   curr_time (projr (tick X_stay env0 state0)) = 600 \<and>
   (case start_server 3 X_stay 3 state0 of
      Returned s \<Rightarrow> step s = 3 \<and> curr_time s = 1800
    | Raised e s \<Rightarrow> False
    | Out_Of_Fuel c s \<Rightarrow> False)"
proof -
  obtain s' where t: "tick X_stay env0 state0 = Inr s'"
    by (simp add: ex_defs op_defs Let_def)
  obtain s'' where r: "start_server 3 X_stay 3 state0 = Returned s''"
    by (simp add: ex_defs op_defs Let_def numeral_3_eq_3)
  have "step state0 = 0" "curr_time state0 = 0" "sec_per_step state0 = 600"
    by (simp_all add: state0_def)
  with tick_advances_step_and_clock[where X=X_stay and d=env0 and s=state0 and s'=s' and fuel=3 and n=3 and s''=s''] t r
  show ?thesis by simp
qed

section \<open>Termination of the loop\<close>

lemma tick_in_range:
  assumes "tick X d s = Inr s'"
  shows "0 \<le> curr_time s' \<and> curr_time s' \<le> datetime_max"
  using assms
  by (auto simp: tick_def Let_def datetime_add_def split: sum.splits prod.splits if_splits)

lemma server_loop_headless_clock:
  "server_loop fuel headless X b n s = Out_Of_Fuel c s' \<Longrightarrow>
     curr_time s' = curr_time s + int fuel * sec_per_step s \<and>
     (0 < fuel \<longrightarrow> 0 \<le> curr_time s' \<and> curr_time s' \<le> datetime_max)"
proof (induction fuel arbitrary: b n s)
  case 0
  then show ?case by (simp split: if_splits)
next
  case (Suc fuel)
  from Suc.prems have n: "n \<noteq> 0" by (auto split: if_splits)
  from Suc.prems n obtain fd b' s1 where h: "headless b s = Inr (fd, b', s1)"
    by (cases "headless b s") (auto split: prod.splits)
  from headless_frame[OF h] obtain d where
    fd: "fd = Some d" and hs: "curr_time s1 = curr_time s" "sec_per_step s1 = sec_per_step s"
    by auto
  from Suc.prems n h fd obtain s2 where tk: "tick X d s1 = Inr s2"
    by (cases "tick X d s1") (auto simp: on_frontend_data_def split: prod.splits)
  have rest: "server_loop fuel headless X b' (n - 1) s2 = Out_Of_Fuel c s'"
    using Suc.prems n h fd tk by (simp add: on_frontend_data_def)
  from tick_advances[OF tk] hs have adv: "curr_time s2 = curr_time s + sec_per_step s"
    "sec_per_step s2 = sec_per_step s" by simp_all
  from Suc.IH[OF rest] have ih: "curr_time s' = curr_time s2 + int fuel * sec_per_step s2"
    "0 < fuel \<longrightarrow> 0 \<le> curr_time s' \<and> curr_time s' \<le> datetime_max"
    by blast+
  have range: "0 \<le> curr_time s' \<and> curr_time s' \<le> datetime_max"
  proof (cases fuel)
    case 0
    with rest have "s' = s2" by (simp split: if_splits)
    with tick_in_range[OF tk] show ?thesis by simp
  next
    case (Suc k)
    with ih(2) show ?thesis by simp
  qed
  from ih(1) adv range show ?case by (simp add: algebra_simps)
qed

lemma server_loop_stable:
  "(\<And>c s'. server_loop fuel B X b n s \<noteq> Out_Of_Fuel c s') \<Longrightarrow>
     server_loop (fuel + k) B X b n s = server_loop fuel B X b n s"
proof (induction fuel arbitrary: b n s)
  case 0
  have "n = 0"
  proof (rule ccontr)
    assume "n \<noteq> 0"
    then have "server_loop 0 B X b n s = Out_Of_Fuel n s" by simp
    with "0.prems" show False by blast
  qed
  then show ?case by (cases k) simp_all
next
  case (Suc fuel)
  show ?case
  proof (cases "n = 0")
    case True
    then show ?thesis by simp
  next
    case n: False
    show ?thesis
    proof (cases "B b s")
      case (Inl r)
      then show ?thesis using n by (cases r) simp
    next
      case (Inr r)
      obtain fd b' s1 where r: "r = (fd, b', s1)" by (cases r)
      show ?thesis
      proof (cases "on_frontend_data X fd n s1")
        case (Inl q)
        then show ?thesis using n Inr r by (cases q) simp
      next
        case o: (Inr q)
        obtain n' s2 where q: "q = (n', s2)" by (cases q)
        have e: "server_loop (Suc fuel) B X b n s = server_loop fuel B X b' n' s2"
          using n Inr r o q by simp
        have "\<And>c s'. server_loop fuel B X b' n' s2 \<noteq> Out_Of_Fuel c s'"
          using Suc.prems unfolding e by simp
        from Suc.IH[OF this] show ?thesis using n Inr r o q by simp
      qed
    qed
  qed
qed

lemma eventually_raises:
  assumes "n < 0" and "sec_per_step s \<noteq> 0"
  shows "\<exists>fuel e. raised_error (start_server fuel X n s) = Some e"
proof -
  let ?s0 = "s\<lparr>backend_data := \<lparr>bd_time = curr_time s, bd_persona = copy_items (frontend_pos s) []\<rparr>,
           game_obj_cleanup := []\<rparr>"
  define fuel where "fuel = (if 0 < sec_per_step s then nat (datetime_max - curr_time s) + 1
                            else nat (curr_time s) + 1)"
  have pos: "0 < fuel" by (simp add: fuel_def)
  have out_of_range: "\<not> (0 \<le> curr_time s + int fuel * sec_per_step s \<and>
                         curr_time s + int fuel * sec_per_step s \<le> datetime_max)"
  proof (cases "0 < sec_per_step s")
    case True
    then have "int fuel * 1 \<le> int fuel * sec_per_step s"
      by (intro mult_left_mono) simp_all
    moreover have "datetime_max - curr_time s < int fuel" using True by (simp add: fuel_def)
    ultimately show ?thesis by simp
  next
    case False
    with assms(2) have "sec_per_step s \<le> - 1" by simp
    then have "int fuel * sec_per_step s \<le> int fuel * (- 1)"
      by (intro mult_left_mono) simp_all
    moreover have "curr_time s < int fuel" using False by (simp add: fuel_def)
    ultimately show ?thesis by simp
  qed
  show ?thesis
  proof (cases "server_loop fuel headless X () n ?s0")
    case (Returned s')
    with server_loop_headless[where fuel=fuel and X=X and b="()" and n=n and s="?s0"] assms(1)
    show ?thesis by simp
  next
    case (Raised e s')
    then have "raised_error (start_server fuel X n s) = Some e"
      by (simp add: start_server_def start_server_with_def raised_error_def)
    then show ?thesis by blast
  next
    case (Out_Of_Fuel c s')
    from server_loop_headless_clock[OF this] pos out_of_range show ?thesis by simp
  qed
qed

text \<open>
  Claim C10, as amended. As long as no exception is raised inside a tick: with a counter
  \<open>n \<ge> 0\<close> the loop of \<open>start_server\<close> returns within \<open>n\<close> iterations, after
  exactly \<open>n\<close> completed ticks (the step counter has grown by \<open>n\<close>); with \<open>n < 0\<close>
  it is still running after any number of iterations, with as many ticks completed and the
  counter at \<open>n\<close> minus that number, which is never 0. With \<open>n < 0\<close> the loop never
  returns. But nothing in \<open>start_server\<close> catches an exception: one raised inside a
  tick ends the loop, for any \<open>n\<close>, and more iterations change nothing. With \<open>n < 0\<close>
  and a step of other than 0 seconds this always happens in the end, since the clock
  leaves the range of a datetime. The claim as stated has the loop end after exactly
  \<open>n\<close> ticks for every \<open>n \<ge> 0\<close> and never end for \<open>n < 0\<close>; in the counterexample
  a run with \<open>n = - 1\<close> ends with \<open>OverflowError\<close>, and a run with \<open>n = 5\<close> ends
  with Ada's error before any tick is completed.
\<close>

theorem start_server_exits:
  "(0 \<le> n \<and> nat n \<le> fuel \<and> raised_error (start_server fuel X n s) = None \<longrightarrow>
      (\<exists>s'. start_server fuel X n s = Returned s' \<and> step s' = step s + n \<and>
            curr_time s' = curr_time s + n * sec_per_step s)) \<and>
   (n < 0 \<longrightarrow> start_server fuel X n s \<noteq> Returned s'') \<and>
   (n < 0 \<and> raised_error (start_server fuel X n s) = None \<longrightarrow>
      (\<exists>s'. start_server fuel X n s = Out_Of_Fuel (n - int fuel) s' \<and>
            step s' = step s + int fuel)) \<and>
   (raised_error (start_server fuel X n s) = Some e \<longrightarrow>
      start_server (fuel + k) X n s = start_server fuel X n s) \<and>
   (n < 0 \<and> sec_per_step s \<noteq> 0 \<longrightarrow>
      (\<exists>fuel' e'. raised_error (start_server fuel' X n s) = Some e'))"
proof -
  let ?s0 = "s\<lparr>backend_data := \<lparr>bd_time = curr_time s, bd_persona = copy_items (frontend_pos s) []\<rparr>,
           game_obj_cleanup := []\<rparr>"
  note inv = server_loop_headless[where fuel=fuel and X=X and b="()" and n=n and s="?s0"]
  have st: "start_server fuel X n s = server_loop fuel headless X () n ?s0"
    by (simp add: start_server_def start_server_with_def)
  have 1: "0 \<le> n \<and> nat n \<le> fuel \<and> raised_error (start_server fuel X n s) = None \<longrightarrow>
      (\<exists>s'. start_server fuel X n s = Returned s' \<and> step s' = step s + n \<and>
            curr_time s' = curr_time s + n * sec_per_step s)"
    using inv unfolding st by (cases "server_loop fuel headless X () n ?s0")
      (auto simp: raised_error_def)
  have 2: "n < 0 \<longrightarrow> start_server fuel X n s \<noteq> Returned s''"
    using inv unfolding st by (cases "server_loop fuel headless X () n ?s0") auto
  have 3: "n < 0 \<and> raised_error (start_server fuel X n s) = None \<longrightarrow>
      (\<exists>s'. start_server fuel X n s = Out_Of_Fuel (n - int fuel) s' \<and>
            step s' = step s + int fuel)"
    using inv unfolding st by (cases "server_loop fuel headless X () n ?s0")
      (auto simp: raised_error_def)
  have 4: "raised_error (start_server fuel X n s) = Some e \<longrightarrow>
      start_server (fuel + k) X n s = start_server fuel X n s"
  proof
    assume "raised_error (start_server fuel X n s) = Some e"
    then have "\<And>c s'. server_loop fuel headless X () n ?s0 \<noteq> Out_Of_Fuel c s'"
      unfolding st by (auto simp: raised_error_def)
    from server_loop_stable[OF this, of k]
    show "start_server (fuel + k) X n s = start_server fuel X n s"
      by (simp add: start_server_def start_server_with_def)
  qed
  have 5: "n < 0 \<and> sec_per_step s \<noteq> 0 \<longrightarrow>
      (\<exists>fuel' e'. raised_error (start_server fuel' X n s) = Some e')"
    using eventually_raises[of n s X] by blast
  show ?thesis by (rule conjI[OF 1 conjI[OF 2 conjI[OF 3 conjI[OF 4 5]]]])
qed

theorem start_server_exits_witness:
  "(case start_server 2 X_stay 2 state0 of
      Returned s \<Rightarrow> step s = 2 \<and> curr_time s = 1200
    | Raised e s \<Rightarrow> False
    | Out_Of_Fuel c s \<Rightarrow> False) \<and>
   (case start_server 2 X_stay (- 1) state0 of
      Returned s \<Rightarrow> False
    | Raised e s \<Rightarrow> False
    | Out_Of_Fuel c s \<Rightarrow> c = - 3 \<and> step s = 2) \<and>
   raised_error (start_server 1 X_stay (- 1) state_last) = Some OverflowError \<and>
   start_server (1 + 3) X_stay (- 1) state_last = start_server 1 X_stay (- 1) state_last \<and>
   sec_per_step state0 \<noteq> 0 \<and>
   (\<exists>fuel e. raised_error (start_server fuel X_stay (- 1) state0) = Some e)"
proof -
  have a: "raised_error (start_server 2 X_stay 2 state0) = None"
    by (simp add: ex_defs op_defs Let_def numeral_2_eq_2 raised_error_def)
  have b: "raised_error (start_server 2 X_stay (- 1) state0) = None"
    by (simp add: ex_defs op_defs Let_def numeral_2_eq_2 raised_error_def)
  have c: "raised_error (start_server 1 X_stay (- 1) state_last) = Some OverflowError"
    by (simp add: ex_defs op_defs Let_def raised_error_def state_last_def)
  have z: "step state0 = 0" "curr_time state0 = 0" "sec_per_step state0 = 600"
    by (simp_all add: state0_def)
  note returns = start_server_exits[where n=2 and fuel=2 and X=X_stay and s=state0,
      THEN conjunct1]
  note runs = start_server_exits[where n="- 1" and fuel=2 and X=X_stay and s=state0,
      THEN conjunct2, THEN conjunct2, THEN conjunct1]
  note stays = start_server_exits[where n="- 1" and fuel=1 and X=X_stay and s=state_last
      and e=OverflowError and k=3, THEN conjunct2, THEN conjunct2, THEN conjunct2, THEN conjunct1]
  note ends = start_server_exits[where n="- 1" and fuel=1 and X=X_stay and s=state0,
      THEN conjunct2, THEN conjunct2, THEN conjunct2, THEN conjunct2]
  from returns a z obtain s' where "start_server 2 X_stay 2 state0 = Returned s'"
    "step s' = 2" "curr_time s' = 1200"
    by auto
  moreover from runs b z obtain s'' where "start_server 2 X_stay (- 1) state0 = Out_Of_Fuel (- 3) s''"
    "step s'' = 2"
    by auto
  moreover from stays c
  have "start_server (1 + 3) X_stay (- 1) state_last = start_server 1 X_stay (- 1) state_last"
    by simp
  moreover from ends z
  have "\<exists>fuel e. raised_error (start_server fuel X_stay (- 1) state0) = Some e"
    by simp
  ultimately show ?thesis using c z by simp
qed

theorem start_server_termination_counterexample:
  "raised_error (start_server 1 X_stay (- 1) state_last) = Some OverflowError \<and>
   raised_error (start_server 5 X_fail 5 state0) = Some (AgentError ''Ada'') \<and>
   step (outcome_state (start_server 5 X_fail 5 state0)) = step state0"
  by (simp add: ex_defs op_defs Let_def raised_error_def outcome_state_def state_last_def
      eval_nat_numeral)

section \<open>Polls without an update\<close>

lemma none_polls_skipped:
  "server_loop (k + fuel) scripted X (replicate k None @ script) c s =
   server_loop fuel scripted X script c s"
proof (induction k)
  case 0
  then show ?case by simp
next
  case (Suc k)
  show ?case
  proof (cases "c = 0")
    case True
    then show ?thesis by (cases fuel) simp_all
  next
    case False
    then show ?thesis using Suc by (simp add: on_frontend_data_def)
  qed
qed

text \<open>
  Claim C8. When the bridge answers \<^verbatim>\<open>None\<close>, the controller changes nothing: the
  state (clock, step, tiles of the agents, tile store, cleanup ledger) and the counter of
  remaining ticks are as the poll left them, and the loop polls again. Polls without an
  update are skipped, however many there are; when the update arrives after two empty
  polls, the outcome is that of one tick applied once.
\<close>

theorem no_update_changes_nothing:
  "on_frontend_data X None c s = Inr (c, s) \<and>
   (B b s = Inr (None, b', s') \<and> c \<noteq> 0 \<longrightarrow>
      server_loop (Suc fuel) B X b c s = server_loop fuel B X b' c s') \<and>
   server_loop (k + fuel) scripted X (replicate k None @ script) c s =
     server_loop fuel scripted X script c s \<and>
   server_loop (3 + fuel) scripted X [None, None, Some d] 1 s =
     (case tick X d s of Inl (e, s') \<Rightarrow> Raised e s' | Inr s' \<Rightarrow> Returned s')"
proof -
  have "server_loop (2 + (1 + fuel)) scripted X (replicate 2 None @ [Some d]) 1 s =
        server_loop (1 + fuel) scripted X [Some d] 1 s"
    by (rule none_polls_skipped)
  moreover have "server_loop (1 + fuel) scripted X [Some d] 1 s =
     (case tick X d s of Inl (e, s') \<Rightarrow> Raised e s' | Inr s' \<Rightarrow> Returned s')"
    by (cases fuel) (auto simp: on_frontend_data_def split: sum.splits)
  moreover have "(2::nat) + (1 + fuel) = 3 + fuel" by simp
  moreover have "replicate 2 None @ [Some d] = [None, None, Some d]"
    by (simp add: numeral_2_eq_2)
  ultimately have "server_loop (3 + fuel) scripted X [None, None, Some d] 1 s =
     (case tick X d s of Inl (e, s') \<Rightarrow> Raised e s' | Inr s' \<Rightarrow> Returned s')"
    by metis
  then show ?thesis
    by (simp add: on_frontend_data_def none_polls_skipped)
qed

theorem no_update_changes_nothing_witness:
  "scripted [None, None, Some env0] state0 = Inr (None, [None, Some env0], state0) \<and>
   server_loop (Suc 2) scripted X_stay [None, None, Some env0] 1 state0 =
     server_loop 2 scripted X_stay [None, Some env0] 1 state0 \<and>
   server_loop 3 scripted X_stay [None, None, Some env0] 1 state0 =
     Returned (projr (tick X_stay env0 state0)) \<and>
   step (projr (tick X_stay env0 state0)) = 1"
proof -
  have p: "scripted [None, None, Some env0] state0 = Inr (None, [None, Some env0], state0)"
    by simp
  obtain s' where t: "tick X_stay env0 state0 = Inr s'" and st: "step s' = 1"
    by (simp add: ex_defs op_defs Let_def)
  from no_update_changes_nothing[where B=scripted and b="[None, None, Some env0]"
      and s=state0 and b'="[None, Some env0]" and s'=state0 and c=1 and fuel=2 and X=X_stay,
      THEN conjunct2, THEN conjunct1]
  have a: "server_loop (Suc 2) scripted X_stay [None, None, Some env0] 1 state0 =
     server_loop 2 scripted X_stay [None, Some env0] 1 state0"
    using p by simp
  from no_update_changes_nothing[where fuel=0 and X=X_stay and d=env0 and s=state0,
      THEN conjunct2, THEN conjunct2, THEN conjunct2]
  have b: "server_loop 3 scripted X_stay [None, None, Some env0] 1 state0 = Returned s'"
    using t by simp
  show ?thesis using p a b t st by simp
qed

section \<open>The headless frontend echoes the backend\<close>







section \<open>The movement file of a tick\<close>

lemma decide_persona_batch:
  assumes "decide_persona X n p s mv = Inr (s', mv')"
  shows "fst ` set mv' = insert n (fst ` set mv) \<and>
     (\<exists>m next_tile. mv' = AList.update n m mv \<and> mv_movement m = next_tile \<and>
        bd_persona (backend_data s') = AList.update n next_tile (bd_persona (backend_data s)) \<and>
        bd_time (backend_data s') = bd_time (backend_data s))"
proof -
  from assms have ex: "\<exists>m next_tile. mv' = AList.update n m mv \<and> mv_movement m = next_tile \<and>
        bd_persona (backend_data s') = AList.update n next_tile (bd_persona (backend_data s)) \<and>
        bd_time (backend_data s') = bd_time (backend_data s)"
    by (auto simp: decide_persona_def Let_def split: option.splits sum.splits prod.splits)
  then obtain m where "mv' = AList.update n m mv" by blast
  then have "fst ` set mv' = insert n (fst ` set mv)" by (simp add: dom_update)
  with ex show ?thesis by blast
qed

lemma decide_personas_batch:
  "decide_personas X ps s mv = Inr (s', mv') \<Longrightarrow>
     (\<forall>n m. map_of mv n = Some m \<longrightarrow> map_of (bd_persona (backend_data s)) n = Some (mv_movement m)) \<Longrightarrow>
     fst ` set mv' = fst ` set mv \<union> fst ` set ps \<and>
     (\<forall>n m. map_of mv' n = Some m \<longrightarrow> map_of (bd_persona (backend_data s')) n = Some (mv_movement m))"
proof (induction ps arbitrary: s mv)
  case Nil
  then show ?case by simp
next
  case (Cons a ps)
  obtain n p where a: "a = (n, p)" by (cases a)
  from Cons.prems(1) a obtain s1 mv1 where
    1: "decide_persona X n p s mv = Inr (s1, mv1)" and 2: "decide_personas X ps s1 mv1 = Inr (s', mv')"
    by (auto split: sum.splits)
  from decide_persona_batch[OF 1] obtain m where
    k: "fst ` set mv1 = insert n (fst ` set mv)" and u: "mv1 = AList.update n m mv"
    and b: "bd_persona (backend_data s1) = AList.update n (mv_movement m) (bd_persona (backend_data s))"
    by auto
  have inv: "\<forall>n' m'. map_of mv1 n' = Some m' \<longrightarrow>
               map_of (bd_persona (backend_data s1)) n' = Some (mv_movement m')"
    using Cons.prems(2) by (auto simp: u b update_conv')
  from Cons.IH[OF 2 inv] k a show ?case by auto
qed

lemma tick_writes_movement:
  assumes "tick X d s = Inr s'"
  shows "\<exists>mv. fs s' = write_movement (sim_code s) (step s)
                 \<lparr>mvs_persona = mv, mvs_meta_curr_time = curr_time s\<rparr> (fs s) \<and>
              sim_code s' = sim_code s \<and>
              fst ` set mv = fst ` set (personas s) \<and>
              (\<forall>n m. map_of mv n = Some m \<longrightarrow>
                 map_of (bd_persona (backend_data s')) n = Some (mv_movement m))"
proof -
  let ?s1 = "s\<lparr>maze := cleanup (game_obj_cleanup s) (maze s), game_obj_cleanup := []\<rparr>"
  from assms obtain s2 where 2: "move_personas (personas ?s1) d ?s1 = Inr s2"
    by (auto simp: tick_def Let_def split: sum.splits)
  with assms obtain s3 mv where 3: "decide_personas X (personas s2) s2 [] = Inr (s3, mv)"
    by (auto simp: tick_def Let_def split: sum.splits prod.splits)
  from assms 2 3 have fs': "fs s' = write_movement (sim_code s3) (step s3)
      \<lparr>mvs_persona = mv, mvs_meta_curr_time = curr_time s3\<rparr> (fs s3)"
    and sc: "sim_code s' = sim_code s3"
    and bd: "bd_persona (backend_data s') = bd_persona (backend_data s3)"
    by (auto simp: tick_def Let_def split: sum.splits)
  from decide_personas_batch[OF 3] have
    "fst ` set mv = fst ` set (personas s2)"
    "\<forall>n m. map_of mv n = Some m \<longrightarrow> map_of (bd_persona (backend_data s3)) n = Some (mv_movement m)"
    by auto
  with fs' sc bd move_personas_frame[OF 2] decide_personas_frame[OF 3] show ?thesis
    by (intro exI[of _ mv]) simp
qed

text \<open>
  Claim C6, as amended. A completed tick writes its movement batch, with one record per
  agent of the registry (the movement tile of a record is the tile reported back to the
  frontend for that agent), into the movement file numbered with the step index the tick
  started with, which is the new step index minus 1; the field \<open>meta.curr_time\<close> of the
  batch is the clock the tick started with, which is the new clock minus
  \<open>sec_per_step\<close>. The file numbered with the new step index is not written. The claim
  as stated has the new step index and the new clock; the counterexample is a tick from
  step 0 at time 0 that ends at step 1 and time 600 with file 0 written, time 0 in it, and
  no file 1.
\<close>

theorem movement_file_keyed_by_step_before_tick:
  assumes "tick X d s = Inr s'"
  shows "\<exists>mv t. fs s' (sim_code s') = Some t \<and>
           movement_dir t (step s' - 1) =
             Some \<lparr>mvs_persona = mv, mvs_meta_curr_time = curr_time s' - sec_per_step s'\<rparr> \<and>
           step s' - 1 = step s \<and> curr_time s' - sec_per_step s' = curr_time s \<and>
           fst ` set mv = fst ` set (personas s) \<and>
           (\<forall>n m. map_of mv n = Some m \<longrightarrow>
              map_of (bd_persona (backend_data s')) n = Some (mv_movement m)) \<and>
           movement_dir t (step s') =
             (case fs s (sim_code s) of None \<Rightarrow> None | Some t0 \<Rightarrow> movement_dir t0 (step s'))"
proof -
  from tick_writes_movement[OF assms] obtain mv where
    w: "fs s' = write_movement (sim_code s) (step s)
          \<lparr>mvs_persona = mv, mvs_meta_curr_time = curr_time s\<rparr> (fs s)"
    and sc: "sim_code s' = sim_code s"
    and k: "fst ` set mv = fst ` set (personas s)"
    and b: "\<forall>n m. map_of mv n = Some m \<longrightarrow>
                 map_of (bd_persona (backend_data s')) n = Some (mv_movement m)"
    by blast
  from tick_advances[OF assms] have adv: "step s' - 1 = step s"
    "curr_time s' - sec_per_step s' = curr_time s" "step s' \<noteq> step s" by simp_all
  let ?t0 = "case fs s (sim_code s) of None \<Rightarrow> empty_tree | Some t \<Rightarrow> t"
  let ?t = "?t0\<lparr>movement_dir := (movement_dir ?t0)
               (step s \<mapsto> \<lparr>mvs_persona = mv, mvs_meta_curr_time = curr_time s\<rparr>)\<rparr>"
  have "fs s' (sim_code s') = Some ?t"
    by (simp add: w sc write_movement_def Let_def)
  moreover have "movement_dir ?t (step s' - 1) =
      Some \<lparr>mvs_persona = mv, mvs_meta_curr_time = curr_time s' - sec_per_step s'\<rparr>"
    by (simp add: adv)
  moreover have "movement_dir ?t (step s') =
      (case fs s (sim_code s) of None \<Rightarrow> None | Some t0 \<Rightarrow> movement_dir t0 (step s'))"
    using adv(3) by (simp add: empty_tree_def split: option.splits)
  ultimately show ?thesis using adv k b by blast
qed

theorem movement_file_keyed_by_step_before_tick_witness:
  "\<not> isl (tick X_stay env0 state0) \<and>
   step (projr (tick X_stay env0 state0)) - 1 = 0 \<and>
   map_option mvs_meta_curr_time
     (movement_dir (the (fs (projr (tick X_stay env0 state0)) ''trial1'')) 0) = Some 0 \<and>
   map_option (\<lambda>ms. map fst (mvs_persona ms))
     (movement_dir (the (fs (projr (tick X_stay env0 state0)) ''trial1'')) 0) = Some [''Ada'', ''Bob'']"
proof -
  obtain s' where t: "tick X_stay env0 state0 = Inr s'"
    and v: "step s' = 1"
      "map_option mvs_meta_curr_time (movement_dir (the (fs s' ''trial1'')) 0) = Some 0"
      "map_option (\<lambda>ms. map fst (mvs_persona ms)) (movement_dir (the (fs s' ''trial1'')) 0)
         = Some [''Ada'', ''Bob'']"
    by (simp add: ex_defs op_defs Let_def)
  from movement_file_keyed_by_step_before_tick[OF t] have "step s' - 1 = step state0" by blast
  then show ?thesis using t v by (simp add: state0_def)
qed

theorem movement_file_new_step_counterexample:
  "\<not> isl (tick X_stay env0 state0) \<and>
   step (projr (tick X_stay env0 state0)) = 1 \<and>
   curr_time (projr (tick X_stay env0 state0)) = 600 \<and>
   movement_dir (the (fs (projr (tick X_stay env0 state0)) ''trial1'')) 1 = None \<and>
   map_option mvs_meta_curr_time
     (movement_dir (the (fs (projr (tick X_stay env0 state0)) ''trial1'')) 0) = Some 0"
proof -
  obtain s' where "tick X_stay env0 state0 = Inr s'" "step s' = 1" "curr_time s' = 600"
      "movement_dir (the (fs s' ''trial1'')) 1 = None"
      "map_option mvs_meta_curr_time (movement_dir (the (fs s' ''trial1'')) 0) = Some 0"
    by (simp add: ex_defs op_defs Let_def)
  then show ?thesis by simp
qed

section \<open>An agent that fails\<close>

lemma decide_personas_append:
  "decide_personas X (ps1 @ ps2) s mv =
     (case decide_personas X ps1 s mv of
        Inl r \<Rightarrow> Inl r
      | Inr (s1, mv1) \<Rightarrow> decide_personas X ps2 s1 mv1)"
  by (induction ps1 arbitrary: s mv) (auto split: sum.splits)

lemma decide_persona_raises:
  "decide_persona X n p s mv = Inl (e, s') \<Longrightarrow>
     step s' = step s \<and> curr_time s' = curr_time s \<and> fs s' = fs s \<and> maze s' = maze s \<and>
     personas_tile s' = personas_tile s \<and> game_obj_cleanup s' = game_obj_cleanup s \<and>
     backend_data s' = backend_data s \<and>
     (\<forall>m. m \<noteq> n \<longrightarrow> map_of (personas s') m = map_of (personas s) m)"
  by (auto simp: decide_persona_def Let_def update_conv' split: option.splits sum.splits prod.splits)

lemma decide_persona_others:
  "decide_persona X n p s mv = Inr (s', mv') \<Longrightarrow>
     (\<forall>m. m \<noteq> n \<longrightarrow> map_of (personas s') m = map_of (personas s) m)"
  by (auto simp: decide_persona_def Let_def update_conv' split: option.splits sum.splits prod.splits)

lemma decide_personas_others:
  "decide_personas X ps s mv = Inr (s', mv') \<Longrightarrow>
     (\<forall>m. m \<notin> fst ` set ps \<longrightarrow> map_of (personas s') m = map_of (personas s) m)"
proof (induction ps arbitrary: s mv)
  case Nil
  then show ?case by simp
next
  case (Cons a ps)
  obtain n p where a: "a = (n, p)" by (cases a)
  from Cons.prems a obtain s1 mv1 where
    1: "decide_persona X n p s mv = Inr (s1, mv1)" and 2: "decide_personas X ps s1 mv1 = Inr (s', mv')"
    by (auto split: sum.splits)
  from decide_persona_others[OF 1] Cons.IH[OF 2] a show ?case by auto
qed

text \<open>
  Claim C7, as amended. \<open>start_server\<close> catches nothing. When, after the moves of the
  tick, the perceive and decide cycle of an agent raises (the agents before it in the
  registry having decided), the tick ends there with that error and so does the loop: the
  agents after it get no cycle and are left as they were, no movement file is written, and
  neither the step counter nor the clock advances; the cleanup and the moves already made
  in the tile store, the tiles of the agents and the ledger stay as the move phase left
  them. The claim as stated has the tick go on for the other agents and report a partial
  result; in the counterexample Ada fails, Bob is never asked, and \<open>start_server\<close>
  raises Ada's error.
\<close>

theorem agent_failure_aborts_tick:
  assumes moved: "move_personas (personas s) d
             (s\<lparr>maze := cleanup (game_obj_cleanup s) (maze s), game_obj_cleanup := []\<rparr>) = Inr s2"
    and registry: "personas s2 = before @ (n, p) # after"
    and earlier: "decide_personas X before s2 [] = Inr (s3, mv)"
    and raises: "decide_persona X n p s3 mv = Inl (e, s4)"
  shows "tick X d s = Inl (e, s4) \<and>
         on_frontend_data X (Some d) c s = Inl (e, s4) \<and>
         (c \<noteq> 0 \<and> B b s0 = Inr (Some d, b', s) \<longrightarrow> server_loop (Suc fuel) B X b c s0 = Raised e s4) \<and>
         step s4 = step s \<and> curr_time s4 = curr_time s \<and> fs s4 = fs s \<and>
         maze s4 = maze s2 \<and> personas_tile s4 = personas_tile s2 \<and>
         game_obj_cleanup s4 = game_obj_cleanup s2 \<and>
         (\<forall>m. m \<notin> fst ` set before \<and> m \<noteq> n \<longrightarrow> map_of (personas s4) m = map_of (personas s) m)"
proof -
  have dec: "decide_personas X (personas s2) s2 [] = Inl (e, s4)"
    by (simp add: registry decide_personas_append earlier raises)
  have t: "tick X d s = Inl (e, s4)"
    using moved dec by (simp add: tick_def Let_def)
  then have o: "on_frontend_data X (Some d) c s = Inl (e, s4)"
    by (simp add: on_frontend_data_def)
  have l: "c \<noteq> 0 \<and> B b s0 = Inr (Some d, b', s) \<longrightarrow> server_loop (Suc fuel) B X b c s0 = Raised e s4"
    using o by simp
  from move_personas_frame[OF moved] decide_personas_frame[OF earlier]
    decide_persona_raises[OF raises] decide_personas_others[OF earlier]
  have "step s4 = step s \<and> curr_time s4 = curr_time s \<and> fs s4 = fs s \<and>
         maze s4 = maze s2 \<and> personas_tile s4 = personas_tile s2 \<and>
         game_obj_cleanup s4 = game_obj_cleanup s2 \<and>
         (\<forall>m. m \<notin> fst ` set before \<and> m \<noteq> n \<longrightarrow> map_of (personas s4) m = map_of (personas s) m)"
    by simp
  with t o l show ?thesis by blast
qed


theorem agent_failure_aborts_tick_witness:
  "isl (tick X_fail env0 state0) \<and>
   fst (projl (tick X_fail env0 state0)) = AgentError ''Ada'' \<and>
   step (snd (projl (tick X_fail env0 state0))) = 0 \<and>
   curr_time (snd (projl (tick X_fail env0 state0))) = 0 \<and>
   fs (snd (projl (tick X_fail env0 state0))) = fs state0 \<and>
   map_of (personas (snd (projl (tick X_fail env0 state0)))) ''Bob'' = Some bob"
proof -
  obtain s2 where moved: "move_personas (personas state0) env0
        (state0\<lparr>maze := cleanup (game_obj_cleanup state0) (maze state0), game_obj_cleanup := []\<rparr>)
        = Inr s2"
    and registry: "personas s2 = [] @ (''Ada'', ada) # [(''Bob'', bob)]"
    and here: "map_of (personas_tile s2) ''Ada'' = Some (10, 10)"
    by (simp add: ex_defs op_defs Let_def)
  have earlier: "decide_personas X_fail [] s2 [] = Inr (s2, [])" by simp
  obtain s4 where raises: "decide_persona X_fail ''Ada'' ada s2 [] = Inl (AgentError ''Ada'', s4)"
    using here by (simp add: decide_persona_def X_fail_def ada_def Let_def)
  from agent_failure_aborts_tick[where B=scripted and b="[]" and b'="[]" and s0=state0
      and c=1 and fuel=0, OF moved registry earlier raises]
  have "tick X_fail env0 state0 = Inl (AgentError ''Ada'', s4)"
    and "step s4 = step state0" "curr_time s4 = curr_time state0" "fs s4 = fs state0"
    and "map_of (personas s4) ''Bob'' = map_of (personas state0) ''Bob''"
    by simp_all
  then show ?thesis by (simp add: state0_def)
qed

theorem agent_failure_partial_tick_counterexample:
  "isl (tick X_fail env0 state0) \<and>
   fst (projl (tick X_fail env0 state0)) = AgentError ''Ada'' \<and>
   map_option scratch_curr_tile (map_of (personas (snd (projl (tick X_fail env0 state0)))) ''Bob'')
     = Some None \<and>
   fs (snd (projl (tick X_fail env0 state0))) ''trial1'' = Some base_tree \<and>
   raised_error (start_server 1 X_fail 1 state0) = Some (AgentError ''Ada'')"
proof -
  obtain s' where "tick X_fail env0 state0 = Inl (AgentError ''Ada'', s')"
    "map_option scratch_curr_tile (map_of (personas s') ''Bob'') = Some None"
    "fs s' ''trial1'' = Some base_tree"
    by (simp add: ex_defs op_defs Let_def)
  moreover obtain s'' where "start_server 1 X_fail 1 state0 = Raised (AgentError ''Ada'') s''"
    by (simp add: ex_defs op_defs Let_def)
  ultimately show ?thesis by (simp add: raised_error_def)
qed

section \<open>The maze calls of a tick\<close>

lemma cleanup_calls: "calls (cleanup l m) = calls m @ map idle_call l"
  by (induction l arbitrary: m) (auto simp: turn_event_from_tile_idle_def idle_call_def)

lemma move_persona_calls:
  "\<exists>rest. calls (maze (state_of (move_persona n p d s))) = calls (maze s) @ rest \<and>
          (\<forall>c \<in> set rest. \<not> is_idle_call c)"
  by (auto simp: move_persona_def state_of_def Let_def is_idle_call_def
      add_event_from_tile_def remove_event_from_tile_def remove_subject_events_from_tile_def
      split: option.splits)

lemma move_personas_calls:
  "\<exists>rest. calls (maze (state_of (move_personas ps d s))) = calls (maze s) @ rest \<and>
          (\<forall>c \<in> set rest. \<not> is_idle_call c)"
proof (induction ps arbitrary: s)
  case Nil
  then show ?case by (simp add: state_of_def)
next
  case (Cons a ps)
  obtain n p where a: "a = (n, p)" by (cases a)
  show ?case
  proof (cases "move_persona n p d s")
    case (Inl r)
    then show ?thesis using move_persona_calls[of n p d s] a by simp
  next
    case (Inr s1)
    from move_persona_calls[of n p d s] Inr obtain r1 where
      1: "calls (maze s1) = calls (maze s) @ r1" "\<forall>c \<in> set r1. \<not> is_idle_call c"
      by (auto simp: state_of_def)
    from Cons.IH[of s1] obtain r2 where
      2: "calls (maze (state_of (move_personas ps d s1))) = calls (maze s1) @ r2"
         "\<forall>c \<in> set r2. \<not> is_idle_call c"
      by blast
    show ?thesis
      using 1 2 a Inr by (intro exI[of _ "r1 @ r2"]) auto
  qed
qed

lemma decide_personas_raises:
  "decide_personas X ps s mv = Inl (e, s') \<Longrightarrow>
     step s' = step s \<and> curr_time s' = curr_time s \<and> fs s' = fs s \<and> maze s' = maze s \<and>
     personas_tile s' = personas_tile s \<and> game_obj_cleanup s' = game_obj_cleanup s"
proof (induction ps arbitrary: s mv)
  case Nil
  then show ?case by simp
next
  case (Cons a ps)
  obtain n p where a: "a = (n, p)" by (cases a)
  show ?case
  proof (cases "decide_persona X n p s mv")
    case (Inl r)
    then show ?thesis using Cons.prems a decide_persona_raises[of X n p s mv e s'] by simp
  next
    case (Inr r)
    obtain s1 mv1 where r: "r = (s1, mv1)" by (cases r)
    from Cons.prems a Inr r have "decide_personas X ps s1 mv1 = Inl (e, s')" by simp
    from Cons.IH[OF this] decide_persona_frame[OF Inr[unfolded r]] show ?thesis by simp
  qed
qed

lemma tick_maze:
  "\<exists>s2. state_of (move_personas (personas s) d
          (s\<lparr>maze := cleanup (game_obj_cleanup s) (maze s), game_obj_cleanup := []\<rparr>)) = s2 \<and>
        maze (state_of (tick X d s)) = maze s2 \<and>
        game_obj_cleanup (state_of (tick X d s)) = game_obj_cleanup s2"
proof -
  let ?s1 = "s\<lparr>maze := cleanup (game_obj_cleanup s) (maze s), game_obj_cleanup := []\<rparr>"
  show ?thesis
  proof (cases "move_personas (personas ?s1) d ?s1")
    case (Inl r)
    then show ?thesis by (simp add: tick_def Let_def)
  next
    case m: (Inr s2)
    show ?thesis
    proof (cases "decide_personas X (personas s2) s2 []")
      case (Inl r)
      obtain e s3 where r: "r = (e, s3)" by (cases r)
      from decide_personas_raises[OF Inl[unfolded r]] m Inl r show ?thesis
        by (simp add: tick_def Let_def state_of_def)
    next
      case (Inr r)
      obtain s3 mv where r: "r = (s3, mv)" by (cases r)
      from decide_personas_frame[OF Inr[unfolded r]] m Inr r show ?thesis
        by (simp add: tick_def Let_def state_of_def split: sum.splits)
    qed
  qed
qed

lemma tick_calls:
  "\<exists>rest. calls (maze (state_of (tick X d s))) =
            calls (maze s) @ map idle_call (game_obj_cleanup s) @ rest \<and>
          (\<forall>c \<in> set rest. \<not> is_idle_call c)"
proof -
  let ?s1 = "s\<lparr>maze := cleanup (game_obj_cleanup s) (maze s), game_obj_cleanup := []\<rparr>"
  from move_personas_calls[of "personas s" d ?s1] obtain rest where
    "calls (maze (state_of (move_personas (personas s) d ?s1))) = calls (maze ?s1) @ rest"
    "\<forall>c \<in> set rest. \<not> is_idle_call c"
    by blast
  with tick_maze[of s d X] show ?thesis
    by (intro exI[of _ rest]) (simp add: cleanup_calls)
qed


lemma set_update_subset: "set (AList.update k v al) \<subseteq> insert (k, v) (set al)"
  by (induction al) auto

lemma move_persona_effect:
  assumes "map_of (personas_tile s) n = Some curr_tile" and "map_of d n = Some new_tile"
  shows "\<exists>s'. move_persona n p d s = Inr s' \<and>
           calls (maze s') = calls (maze s) @ spec_move_calls p curr_tile new_tile \<and>
           personas_tile s' = AList.update n new_tile (personas_tile s) \<and>
           game_obj_cleanup s' =
             (if planned_path p = []
              then AList.update (get_curr_obj_event_and_desc p) new_tile (game_obj_cleanup s)
              else game_obj_cleanup s) \<and>
           tiles (maze s') = tiles
             ((if planned_path p = []
               then remove_event_from_tile (idle_of (fst (get_curr_obj_event_and_desc p))) new_tile
                    \<circ> add_event_from_tile (get_curr_obj_event_and_desc p) new_tile
               else id)
              (add_event_from_tile (get_curr_event_and_desc p) new_tile
                 (remove_subject_events_from_tile (name p) curr_tile (maze s))))"
  using assms
  by (simp add: move_persona_def Let_def spec_move_calls_def spec_object_calls_def
      add_event_from_tile_def remove_event_from_tile_def remove_subject_events_from_tile_def)

lemma move_persona_ledger:
  assumes "move_persona n p d s = Inr s'"
  shows "\<exists>t. map_of d n = Some t \<and>
           game_obj_cleanup s' =
             (if planned_path p = []
              then AList.update (get_curr_obj_event_and_desc p) t (game_obj_cleanup s)
              else game_obj_cleanup s)"
  using assms by (auto simp: move_persona_def Let_def split: option.splits if_splits)

lemma move_personas_ledger:
  "move_personas ps d s = Inr s' \<Longrightarrow>
     fst ` set (game_obj_cleanup s') =
       fst ` set (game_obj_cleanup s) \<union>
       get_curr_obj_event_and_desc ` {p \<in> snd ` set ps. planned_path p = []} \<and>
     (\<forall>(e, t) \<in> set (game_obj_cleanup s'). (e, t) \<in> set (game_obj_cleanup s) \<or>
        (\<exists>(n, p) \<in> set ps. planned_path p = [] \<and> e = get_curr_obj_event_and_desc p \<and>
           map_of d n = Some t))"
proof (induction ps arbitrary: s)
  case Nil
  then show ?case by auto
next
  case (Cons a ps)
  obtain n p where a: "a = (n, p)" by (cases a)
  from Cons.prems a obtain s1 where
    1: "move_persona n p d s = Inr s1" and 2: "move_personas ps d s1 = Inr s'"
    by (auto split: sum.splits)
  from move_persona_ledger[OF 1] obtain t where t: "map_of d n = Some t"
    and l: "game_obj_cleanup s1 =
             (if planned_path p = []
              then AList.update (get_curr_obj_event_and_desc p) t (game_obj_cleanup s)
              else game_obj_cleanup s)"
    by blast
  have k1: "fst ` set (game_obj_cleanup s1) = fst ` set (game_obj_cleanup s) \<union>
      get_curr_obj_event_and_desc ` {q \<in> {p}. planned_path q = []}"
    by (auto simp: l dom_update)
  have e1: "set (game_obj_cleanup s1) \<subseteq> set (game_obj_cleanup s) \<union>
      {(e, t'). planned_path p = [] \<and> e = get_curr_obj_event_and_desc p \<and> t' = t}"
    using set_update_subset[of "get_curr_obj_event_and_desc p" t "game_obj_cleanup s"]
    by (auto simp: l)
  from Cons.IH[OF 2] have
    k2: "fst ` set (game_obj_cleanup s') = fst ` set (game_obj_cleanup s1) \<union>
       get_curr_obj_event_and_desc ` {p \<in> snd ` set ps. planned_path p = []}"
    and e2: "\<forall>(e, t) \<in> set (game_obj_cleanup s'). (e, t) \<in> set (game_obj_cleanup s1) \<or>
        (\<exists>(n, p) \<in> set ps. planned_path p = [] \<and> e = get_curr_obj_event_and_desc p \<and>
           map_of d n = Some t)"
    by blast+
  have "fst ` set (game_obj_cleanup s') =
       fst ` set (game_obj_cleanup s) \<union>
       get_curr_obj_event_and_desc ` {p \<in> snd ` set (a # ps). planned_path p = []}"
    unfolding k2 k1 a by auto
  moreover have "\<forall>(e, t) \<in> set (game_obj_cleanup s'). (e, t) \<in> set (game_obj_cleanup s) \<or>
        (\<exists>(n, p) \<in> set (a # ps). planned_path p = [] \<and> e = get_curr_obj_event_and_desc p \<and>
           map_of d n = Some t)"
    using e2 e1 t a by fastforce
  ultimately show ?case by blast
qed

lemma move_personas_trace:
  "distinct (map fst ps) \<Longrightarrow>
     calls (maze (state_of (move_personas ps d s))) =
       calls (maze s) @ spec_phase_calls ps (personas_tile s) d"
proof (induction ps arbitrary: s)
  case Nil
  then show ?case by (simp add: state_of_def)
next
  case (Cons a ps)
  obtain n p where a: "a = (n, p)" by (cases a)
  from Cons.prems a have d: "distinct (map fst ps)" and fresh: "n \<notin> fst ` set ps" by auto
  show ?case
  proof (cases "map_of (personas_tile s) n")
    case None
    then show ?thesis using a by (simp add: move_persona_def state_of_def)
  next
    case c: (Some curr_tile)
    show ?thesis
    proof (cases "map_of d n")
      case None
      then show ?thesis using a c by (simp add: move_persona_def state_of_def)
    next
      case t: (Some new_tile)
      from move_persona_effect[OF c t, of p] obtain s1 where
        1: "move_persona n p d s = Inr s1"
        and 2: "calls (maze s1) = calls (maze s) @ spec_move_calls p curr_tile new_tile"
        and 3: "personas_tile s1 = AList.update n new_tile (personas_tile s)"
        by blast
      have same: "spec_phase_calls ps (personas_tile s1) d = spec_phase_calls ps (personas_tile s) d"
        using fresh
      proof (induction ps)
        case Nil
        then show ?case by simp
      next
        case (Cons b ps)
        obtain m q where b: "b = (m, q)" by (cases b)
        from Cons.prems b have "m \<noteq> n" "n \<notin> fst ` set ps" by auto
        with Cons.IH b show ?case by (auto simp: 3 update_conv' split: option.splits)
      qed
      from Cons.IH[OF d, of s1] 1 2 same a c t show ?thesis by simp
    qed
  qed
qed

section \<open>Cleanup comes first\<close>

lemma idle_keeps_out:
  "e \<noteq> idle_of (fst e) \<Longrightarrow> e \<notin> tiles m t \<Longrightarrow> e \<notin> tiles (cleanup l m) t"
proof (induction l arbitrary: m)
  case Nil
  then show ?case by simp
next
  case (Cons a l)
  obtain k v where a: "a = (k, v)" by (cases a)
  have "e \<notin> tiles (turn_event_from_tile_idle k v m) t"
    using Cons.prems by (auto simp: turn_event_from_tile_idle_def idle_of_def)
  from Cons.IH[OF Cons.prems(1) this] a show ?case by simp
qed

lemma idle_stays:
  "x = idle_of (fst x) \<Longrightarrow> x \<in> tiles m t \<Longrightarrow> x \<in> tiles (cleanup l m) t"
proof (induction l arbitrary: m)
  case Nil
  then show ?case by simp
next
  case (Cons a l)
  obtain k v where a: "a = (k, v)" by (cases a)
  have "x \<in> tiles (turn_event_from_tile_idle k v m) t"
    using Cons.prems by (auto simp: turn_event_from_tile_idle_def)
  from Cons.IH[OF Cons.prems(1) this] a show ?case by simp
qed

lemma cleanup_idles_entry:
  "(e, t) \<in> set l \<Longrightarrow> e \<noteq> idle_of (fst e) \<Longrightarrow>
     e \<notin> tiles (cleanup l m) t \<and>
     (e \<in> tiles m t \<or> idle_of (fst e) \<in> tiles m t \<longrightarrow> idle_of (fst e) \<in> tiles (cleanup l m) t)"
proof (induction l arbitrary: m)
  case Nil
  then show ?case by simp
next
  case (Cons a l)
  obtain k v where a: "a = (k, v)" by (cases a)
  let ?m = "turn_event_from_tile_idle k v m"
  have i: "idle_of (fst e) = idle_of (fst (idle_of (fst e)))" by (simp add: idle_of_def)
  show ?case
  proof (cases "a = (e, t)")
    case True
    with a have kv: "k = e" "v = t" by simp_all
    have out: "e \<notin> tiles ?m t"
      using Cons.prems(2) by (auto simp: kv turn_event_from_tile_idle_def)
    have inn: "e \<in> tiles m t \<or> idle_of (fst e) \<in> tiles m t \<Longrightarrow> idle_of (fst e) \<in> tiles ?m t"
      by (auto simp: kv turn_event_from_tile_idle_def)
    from idle_keeps_out[OF Cons.prems(2) out, of l] idle_stays[OF i, of ?m t l] inn a
    show ?thesis by auto
  next
    case False
    with Cons.prems(1) have mem: "(e, t) \<in> set l" by simp
    have keep: "e \<in> tiles m t \<or> idle_of (fst e) \<in> tiles m t \<Longrightarrow>
                e \<in> tiles ?m t \<or> idle_of (fst e) \<in> tiles ?m t"
      using False a by (auto simp: turn_event_from_tile_idle_def idle_of_def)
    from Cons.IH[OF mem Cons.prems(2), of ?m] keep a show ?thesis by auto
  qed
qed


lemma tick_ledger:
  assumes t: "tick X d s = Inr s'"
  shows "fst ` set (game_obj_cleanup s') =
       get_curr_obj_event_and_desc ` {p \<in> snd ` set (personas s). planned_path p = []} \<and>
     (\<forall>(e, t) \<in> set (game_obj_cleanup s').
        (\<exists>(n, p) \<in> set (personas s). planned_path p = [] \<and> e = get_curr_obj_event_and_desc p \<and>
           map_of d n = Some t))"
proof -
  let ?s1 = "s\<lparr>maze := cleanup (game_obj_cleanup s) (maze s), game_obj_cleanup := []\<rparr>"
  from t obtain s2 where 2: "move_personas (personas ?s1) d ?s1 = Inr s2"
    by (auto simp: tick_def Let_def split: sum.splits)
  from tick_maze[of s d X] t 2 have g: "game_obj_cleanup s' = game_obj_cleanup s2"
    by (simp add: state_of_def)
  have p: "personas ?s1 = personas s" "game_obj_cleanup ?s1 = []" by simp_all
  from move_personas_ledger[OF 2] show ?thesis unfolding g p by simp
qed

lemma recorded_is_idled_next_tick:
  assumes t: "tick X d s = Inr s'" and m: "(n, p) \<in> set (personas s)" and arrived: "planned_path p = []"
  shows "\<exists>t' before after.
         map_of (game_obj_cleanup s') (get_curr_obj_event_and_desc p) = Some t' \<and>
         (\<exists>(m, q) \<in> set (personas s). planned_path q = [] \<and>
            get_curr_obj_event_and_desc q = get_curr_obj_event_and_desc p \<and>
            map_of d m = Some t') \<and>
         calls (maze (state_of (tick X' d' s'))) =
           calls (maze s') @ before @ TurnEventIdle (get_curr_obj_event_and_desc p) t' # after \<and>
         (\<forall>c \<in> set before. is_idle_call c)"
proof -
  let ?obj = "get_curr_obj_event_and_desc p"
  have "p \<in> {p \<in> snd ` set (personas s). planned_path p = []}"
    using m arrived by (auto simp: image_iff intro: bexI[of _ "(n, p)"])
  then have "?obj \<in> fst ` set (game_obj_cleanup s')"
    using tick_ledger[OF t] by blast
  then have "\<exists>x \<in> set (game_obj_cleanup s'). fst x = ?obj"
    unfolding image_iff by (rule bexE) (rule bexI, rule sym)
  from split_list_first_prop[OF this] obtain l1 x l2 where
    lx: "game_obj_cleanup s' = l1 @ x # l2" and x: "fst x = ?obj"
    and before: "\<forall>y \<in> set l1. fst y \<noteq> ?obj"
    by blast
  obtain t' where t': "x = (?obj, t')" using x by (cases x) simp
  have l: "game_obj_cleanup s' = l1 @ (?obj, t') # l2" using lx t' by simp
  have first: "?obj \<notin> fst ` set l1" using before by auto
  have "map_of l1 ?obj = None" using first by (simp add: map_of_eq_None_iff)
  then have look: "map_of (game_obj_cleanup s') ?obj = Some t'"
    by (simp add: l map_add_Some_iff)
  from tick_calls[of X' d' s'] obtain rest where
    "calls (maze (state_of (tick X' d' s'))) =
       calls (maze s') @ map idle_call (game_obj_cleanup s') @ rest"
    by blast
  then have c: "calls (maze (state_of (tick X' d' s'))) =
       calls (maze s') @ map idle_call l1 @ TurnEventIdle ?obj t' # (map idle_call l2 @ rest)"
    by (simp add: l idle_call_def)
  have i: "\<forall>c \<in> set (map idle_call l1). is_idle_call c"
    by (simp add: idle_call_def is_idle_call_def)
  have "(?obj, t') \<in> set (game_obj_cleanup s')" by (simp add: l)
  with tick_ledger[OF t] have "\<exists>(m, q) \<in> set (personas s). planned_path q = [] \<and>
      ?obj = get_curr_obj_event_and_desc q \<and> map_of d m = Some t'"
    by blast
  then have src: "\<exists>(m, q) \<in> set (personas s). planned_path q = [] \<and>
      get_curr_obj_event_and_desc q = ?obj \<and> map_of d m = Some t'"
    by (auto intro: sym)
  show ?thesis
    by (rule exI[of _ t'], rule exI[of _ "map idle_call l1"],
        rule exI[of _ "map idle_call l2 @ rest"]) (intro conjI look src c i)
qed

text \<open>
  What holds of the cleanup whatever the ledger. A tick that received an update first
  calls \<open>turn_event_from_tile_idle\<close> for every entry of the ledger, at the tile the
  entry records and in the order of the ledger, and makes no other maze call before them:
  every call that follows is of another kind, so every event added in the tick is added
  after the cleanup. The ledger is then emptied: what it holds at the end of the tick was
  recorded during the tick. After the cleanup an entry that was not idle is gone from its
  tile and, if it was there, its idle record is there. The object event an arrived agent
  spawns in a completed tick is in the ledger after the tick, and the next tick idles it
  at the tile recorded for it, which is the new tile of an agent that spawned this record,
  with nothing but idle calls before.
\<close>

lemma cleanup_precedes_every_add:
  "(\<exists>rest. calls (maze (state_of (tick X d s))) =
             calls (maze s) @ map idle_call (game_obj_cleanup s) @ rest \<and>
           (\<forall>c \<in> set rest. \<not> is_idle_call c)) \<and>
   (tick X d s = Inr s' \<longrightarrow>
      (\<forall>(e, t) \<in> set (game_obj_cleanup s').
         \<exists>(n, p) \<in> set (personas s). planned_path p = [] \<and>
           e = get_curr_obj_event_and_desc p \<and> map_of d n = Some t)) \<and>
   ((e, t) \<in> set (game_obj_cleanup s) \<and> e \<noteq> idle_of (fst e) \<longrightarrow>
      e \<notin> tiles (cleanup (game_obj_cleanup s) (maze s)) t \<and>
      (e \<in> tiles (maze s) t \<longrightarrow>
         idle_of (fst e) \<in> tiles (cleanup (game_obj_cleanup s) (maze s)) t)) \<and>
   (tick X d s = Inr s' \<and> (n, p) \<in> set (personas s) \<and> planned_path p = [] \<longrightarrow>
      (\<exists>t' before after.
         map_of (game_obj_cleanup s') (get_curr_obj_event_and_desc p) = Some t' \<and>
         (\<exists>(m, q) \<in> set (personas s). planned_path q = [] \<and>
            get_curr_obj_event_and_desc q = get_curr_obj_event_and_desc p \<and>
            map_of d m = Some t') \<and>
         calls (maze (state_of (tick X' d' s'))) =
           calls (maze s') @ before @ TurnEventIdle (get_curr_obj_event_and_desc p) t' # after \<and>
         (\<forall>c \<in> set before. is_idle_call c)))"
proof (intro conjI impI)
  show "\<exists>rest. calls (maze (state_of (tick X d s))) =
             calls (maze s) @ map idle_call (game_obj_cleanup s) @ rest \<and>
           (\<forall>c \<in> set rest. \<not> is_idle_call c)"
    by (rule tick_calls)
next
  assume "tick X d s = Inr s'"
  from tick_ledger[OF this] show "\<forall>(e, t) \<in> set (game_obj_cleanup s').
         \<exists>(n, p) \<in> set (personas s). planned_path p = [] \<and>
           e = get_curr_obj_event_and_desc p \<and> map_of d n = Some t"
    by (rule conjunct2)
next
  assume a: "(e, t) \<in> set (game_obj_cleanup s) \<and> e \<noteq> idle_of (fst e)"
  then have 1: "(e, t) \<in> set (game_obj_cleanup s)" and 2: "e \<noteq> idle_of (fst e)" by simp_all
  from cleanup_idles_entry[OF 1 2, of "maze s"]
  show "e \<notin> tiles (cleanup (game_obj_cleanup s) (maze s)) t" by (rule conjunct1)
  assume "e \<in> tiles (maze s) t"
  with cleanup_idles_entry[OF 1 2, of "maze s"]
  show "idle_of (fst e) \<in> tiles (cleanup (game_obj_cleanup s) (maze s)) t" by simp
next
  assume "tick X d s = Inr s' \<and> (n, p) \<in> set (personas s) \<and> planned_path p = []"
  then have "tick X d s = Inr s'" "(n, p) \<in> set (personas s)" "planned_path p = []" by simp_all
  then show "\<exists>t' before after.
         map_of (game_obj_cleanup s') (get_curr_obj_event_and_desc p) = Some t' \<and>
         (\<exists>(m, q) \<in> set (personas s). planned_path q = [] \<and>
            get_curr_obj_event_and_desc q = get_curr_obj_event_and_desc p \<and>
            map_of d m = Some t') \<and>
         calls (maze (state_of (tick X' d' s'))) =
           calls (maze s') @ before @ TurnEventIdle (get_curr_obj_event_and_desc p) t' # after \<and>
         (\<forall>c \<in> set before. is_idle_call c)"
    by (rule recorded_is_idled_next_tick)
qed


lemma cleanup_precedes_every_add_example:
  "\<not> isl (tick X_stay env0 state0) \<and>
   (''Ada'', ada) \<in> set (personas state0) \<and> planned_path ada = [] \<and>
   get_curr_obj_event_and_desc ada = stove_event \<and> stove_event \<noteq> idle_of (fst stove_event) \<and>
   game_obj_cleanup (projr (tick X_stay env0 state0)) = [(stove_event, (10, 10))] \<and>
   stove_event \<in> tiles (maze (projr (tick X_stay env0 state0))) (10, 10) \<and>
   stove_event \<notin> tiles (cleanup (game_obj_cleanup (projr (tick X_stay env0 state0)))
                           (maze (projr (tick X_stay env0 state0)))) (10, 10) \<and>
   idle_of (fst stove_event) \<in> tiles (cleanup (game_obj_cleanup (projr (tick X_stay env0 state0)))
                           (maze (projr (tick X_stay env0 state0)))) (10, 10) \<and>
   take 1 (drop (length (calls (maze (projr (tick X_stay env0 state0)))))
       (calls (maze (state_of (tick X_stay env0 (projr (tick X_stay env0 state0)))))))
     = [TurnEventIdle stove_event (10, 10)]"
proof -
  obtain s1 where t: "tick X_stay env0 state0 = Inr s1"
    and l: "game_obj_cleanup s1 = [(stove_event, (10, 10))]"
    and m: "stove_event \<in> tiles (maze s1) (10, 10)"
    by (simp add: ex_defs op_defs Let_def)
  have a: "(''Ada'', ada) \<in> set (personas state0)" "planned_path ada = []"
    "get_curr_obj_event_and_desc ada = stove_event" "stove_event \<noteq> idle_of (fst stove_event)"
    by (simp_all add: state0_def ada_def stove_event_def idle_of_def)
  note first = cleanup_precedes_every_add[where X=X_stay and d=env0 and s=state0 and s'=s1
      and n="''Ada''" and p=ada and X'=X_stay and d'=env0 and e=stove_event and t="(10, 10)"]
  note second = cleanup_precedes_every_add[where X=X_stay and d=env0 and s=s1 and s'=s1
      and n="''Ada''" and p=ada and X'=X_stay and d'=env0 and e=stove_event and t="(10, 10)"]
  from first t a obtain t' before after where
    "map_of (game_obj_cleanup s1) stove_event = Some t'"
    "calls (maze (state_of (tick X_stay env0 s1))) =
       calls (maze s1) @ before @ TurnEventIdle stove_event t' # after"
    by auto
  then have r: "map_of (game_obj_cleanup s1) stove_event = Some (10, 10)"
    by (simp add: l)
  from second l a m have c: "stove_event \<notin> tiles (cleanup (game_obj_cleanup s1) (maze s1)) (10, 10)"
    "idle_of (fst stove_event) \<in> tiles (cleanup (game_obj_cleanup s1) (maze s1)) (10, 10)"
    by simp_all
  from second obtain rest where
    "calls (maze (state_of (tick X_stay env0 s1))) =
       calls (maze s1) @ map idle_call (game_obj_cleanup s1) @ rest"
    by blast
  then have "take 1 (drop (length (calls (maze s1))) (calls (maze (state_of (tick X_stay env0 s1)))))
     = [TurnEventIdle stove_event (10, 10)]"
    by (simp add: l idle_call_def)
  with t l m a c r show ?thesis by simp
qed

text \<open>
  When no other arrived agent spawns the same record on another tile, the tile recorded
  for an agent's object event is the agent's own new tile, and there the next tick idles
  the event before it makes any other maze call.
\<close>

lemma unshared_record_is_idled_on_its_tile:
  assumes t: "tick X d s = Inr s'" and m: "(n, p) \<in> set (personas s)"
    and arrived: "planned_path p = []"
    and own: "\<forall>(m, q) \<in> set (personas s). planned_path q = [] \<and>
                get_curr_obj_event_and_desc q = get_curr_obj_event_and_desc p
                \<longrightarrow> map_of d m = map_of d n"
  shows "\<exists>tn before after.
           map_of d n = Some tn \<and>
           map_of (game_obj_cleanup s') (get_curr_obj_event_and_desc p) = Some tn \<and>
           calls (maze (state_of (tick X' d' s'))) =
             calls (maze s') @ before @ TurnEventIdle (get_curr_obj_event_and_desc p) tn # after \<and>
           (\<forall>c \<in> set before. is_idle_call c)"
proof -
  from recorded_is_idled_next_tick[OF t m arrived, of X' d'] obtain t' before after where
    look: "map_of (game_obj_cleanup s') (get_curr_obj_event_and_desc p) = Some t'"
    and src: "\<exists>(m, q) \<in> set (personas s). planned_path q = [] \<and>
            get_curr_obj_event_and_desc q = get_curr_obj_event_and_desc p \<and>
            map_of d m = Some t'"
    and c: "calls (maze (state_of (tick X' d' s'))) =
           calls (maze s') @ before @ TurnEventIdle (get_curr_obj_event_and_desc p) t' # after"
    and i: "\<forall>c \<in> set before. is_idle_call c"
    by blast
  from src own have tn: "map_of d n = Some t'" by fastforce
  show ?thesis
    by (rule exI[of _ t'], rule exI[of _ before], rule exI[of _ after])
       (intro conjI tn look c i)
qed

text \<open>
  The ledger is a dictionary keyed by the event record. When two agents that have arrived
  spawn the same record on two tiles in one tick, the ledger keeps the tile of the later
  agent only, and that is the tile where the record is idled in the next tick.
\<close>

lemma ledger_holds_last_tile_of_a_record:
  assumes "map_of (personas_tile s) n = Some cn" and "map_of d n = Some tn"
    and "map_of (personas_tile s) m = Some cm" and "map_of d m = Some tm" and "n \<noteq> m"
    and "planned_path p = []" and "planned_path q = []"
    and "get_curr_obj_event_and_desc p = get_curr_obj_event_and_desc q"
  shows "\<exists>s'. move_personas [(n, p), (m, q)] d s = Inr s' \<and>
           game_obj_cleanup s' =
             AList.update (get_curr_obj_event_and_desc q) tm (game_obj_cleanup s)"
  using assms by (simp add: move_persona_def Let_def update_conv')

text \<open>
  Claim C2. The cleanup comes first and clears the ledger, as shown above. The conclusion
  of the claim, that an object event spawned in one tick is idled in the next before a new
  record for the object is spawned, is what \<open>start_server\<close> keeps the ledger for (its
  comment: the object is to be returned to its initial state, ``so we need to keep track
  of which event we added''), and the code misses it when two arrived agents spawn the
  same record on two tiles. Ada at (10, 10) and Cy at (5, 5) heat the same stove: after
  the first tick the record is on both tiles and the ledger holds it once, with the tile
  of Cy. The second tick makes one idle call, at (5, 5), and then spawns the record again
  on both tiles; on (10, 10) it was never idled, and the cleanup leaves it there.
\<close>

theorem same_record_on_two_tiles_is_not_idled:
  "\<not> isl (tick X_stay env2 state2) \<and>
   stove_event \<in> tiles (maze (projr (tick X_stay env2 state2))) (10, 10) \<and>
   stove_event \<in> tiles (maze (projr (tick X_stay env2 state2))) (5, 5) \<and>
   game_obj_cleanup (projr (tick X_stay env2 state2)) = [(stove_event, (5, 5))] \<and>
   \<not> isl (tick X_stay env2 (projr (tick X_stay env2 state2))) \<and>
   calls (maze (projr (tick X_stay env2 (projr (tick X_stay env2 state2))))) =
     calls (maze (projr (tick X_stay env2 state2))) @
     [TurnEventIdle stove_event (5, 5),
      RemoveSubjectEvents ''Ada'' (10, 10),
      AddEvent (''Ada'', Some ''is'', Some ''cooking'', Some ''cooking soup'') (10, 10),
      AddEvent stove_event (10, 10),
      RemoveEvent (''kitchen:stove'', None, None, None) (10, 10),
      RemoveSubjectEvents ''Cy'' (5, 5),
      AddEvent (''Cy'', Some ''is'', Some ''cooking'', Some ''cooking rice'') (5, 5),
      AddEvent stove_event (5, 5),
      RemoveEvent (''kitchen:stove'', None, None, None) (5, 5)] \<and>
   stove_event \<in> tiles (cleanup (game_obj_cleanup (projr (tick X_stay env2 state2)))
                           (maze (projr (tick X_stay env2 state2)))) (10, 10) \<and>
   stove_event \<notin> tiles (cleanup (game_obj_cleanup (projr (tick X_stay env2 state2)))
                           (maze (projr (tick X_stay env2 state2)))) (5, 5)"
proof -
  obtain s1 s2 where "tick X_stay env2 state2 = Inr s1"
    "stove_event \<in> tiles (maze s1) (10, 10)" "stove_event \<in> tiles (maze s1) (5, 5)"
    "game_obj_cleanup s1 = [(stove_event, (5, 5))]"
    "stove_event \<in> tiles (cleanup (game_obj_cleanup s1) (maze s1)) (10, 10)"
    "stove_event \<notin> tiles (cleanup (game_obj_cleanup s1) (maze s1)) (5, 5)"
    "tick X_stay env2 s1 = Inr s2"
    "calls (maze s2) = calls (maze s1) @
     [TurnEventIdle stove_event (5, 5),
      RemoveSubjectEvents ''Ada'' (10, 10),
      AddEvent (''Ada'', Some ''is'', Some ''cooking'', Some ''cooking soup'') (10, 10),
      AddEvent stove_event (10, 10),
      RemoveEvent (''kitchen:stove'', None, None, None) (10, 10),
      RemoveSubjectEvents ''Cy'' (5, 5),
      AddEvent (''Cy'', Some ''is'', Some ''cooking'', Some ''cooking rice'') (5, 5),
      AddEvent stove_event (5, 5),
      RemoveEvent (''kitchen:stove'', None, None, None) (5, 5)]"
    by (simp add: ex_defs op_defs Let_def cy_def state2_def env2_def)
  then show ?thesis by simp
qed

section \<open>Arriving at an object\<close>

lemma tick_trace:
  assumes "distinct (map fst (personas s))"
  shows "calls (maze (state_of (tick X d s))) =
           calls (maze s) @ map idle_call (game_obj_cleanup s) @
           spec_phase_calls (personas s) (personas_tile s) d"
proof -
  let ?s1 = "s\<lparr>maze := cleanup (game_obj_cleanup s) (maze s), game_obj_cleanup := []\<rparr>"
  from tick_maze[of s d X]
  have "maze (state_of (tick X d s)) = maze (state_of (move_personas (personas s) d ?s1))"
    by simp
  then show ?thesis
    using move_personas_trace[OF assms, of d ?s1] by (simp add: cleanup_calls)
qed

text \<open>
  Claim C3. For an agent with a tile in the registry and in the update, the move step
  succeeds; it removes the agent's events from the previous tile and adds its current
  event at the new tile. If the planned path of the agent is empty, it then adds the
  agent's object event at the new tile, records that event with the new tile in the ledger
  and removes the idle record of the object at the new tile: the idle record is not on the
  tile afterwards, and the object event is (unless it is itself the idle record). If the
  planned path is not empty, none of the three happens: no further maze call, the ledger
  unchanged, the tile store as the two calls left it. Over a whole tick (the names of the
  registry being distinct) the maze calls are the cleanup followed by exactly these calls
  for each agent in registry order, and the ledger of a completed tick holds exactly the
  object events of the agents that had arrived.
\<close>

theorem arrival_spawns_object_event:
  "(map_of (personas_tile s) n = Some curr_tile \<and> map_of d n = Some new_tile \<longrightarrow>
      (\<exists>s'. move_persona n p d s = Inr s' \<and>
         calls (maze s') =
           calls (maze s) @
           [RemoveSubjectEvents (name p) curr_tile, AddEvent (get_curr_event_and_desc p) new_tile] @
           spec_object_calls p new_tile \<and>
         (planned_path p = [] \<longrightarrow>
            spec_object_calls p new_tile =
              [AddEvent (get_curr_obj_event_and_desc p) new_tile,
               RemoveEvent (idle_of (fst (get_curr_obj_event_and_desc p))) new_tile] \<and>
            map_of (game_obj_cleanup s') (get_curr_obj_event_and_desc p) = Some new_tile \<and>
            idle_of (fst (get_curr_obj_event_and_desc p)) \<notin> tiles (maze s') new_tile \<and>
            (get_curr_obj_event_and_desc p \<noteq> idle_of (fst (get_curr_obj_event_and_desc p)) \<longrightarrow>
               get_curr_obj_event_and_desc p \<in> tiles (maze s') new_tile)) \<and>
         (planned_path p \<noteq> [] \<longrightarrow>
            spec_object_calls p new_tile = [] \<and>
            game_obj_cleanup s' = game_obj_cleanup s \<and>
            tiles (maze s') =
              tiles (add_event_from_tile (get_curr_event_and_desc p) new_tile
                       (remove_subject_events_from_tile (name p) curr_tile (maze s)))))) \<and>
   (distinct (map fst (personas s)) \<longrightarrow>
      calls (maze (state_of (tick X d s))) =
        calls (maze s) @ map idle_call (game_obj_cleanup s) @
        spec_phase_calls (personas s) (personas_tile s) d) \<and>
   (tick X d s = Inr s'' \<longrightarrow>
      fst ` set (game_obj_cleanup s'') =
        get_curr_obj_event_and_desc ` {p \<in> snd ` set (personas s). planned_path p = []})"
proof (intro conjI impI)
  assume "map_of (personas_tile s) n = Some curr_tile \<and> map_of d n = Some new_tile"
  then have c: "map_of (personas_tile s) n = Some curr_tile" and t: "map_of d n = Some new_tile"
    by simp_all
  from move_persona_effect[OF c t, of p] obtain s' where
    r: "move_persona n p d s = Inr s'"
    and k: "calls (maze s') = calls (maze s) @ spec_move_calls p curr_tile new_tile"
    and l: "game_obj_cleanup s' =
             (if planned_path p = []
              then AList.update (get_curr_obj_event_and_desc p) new_tile (game_obj_cleanup s)
              else game_obj_cleanup s)"
    and m: "tiles (maze s') = tiles
             ((if planned_path p = []
               then remove_event_from_tile (idle_of (fst (get_curr_obj_event_and_desc p))) new_tile
                    \<circ> add_event_from_tile (get_curr_obj_event_and_desc p) new_tile
               else id)
              (add_event_from_tile (get_curr_event_and_desc p) new_tile
                 (remove_subject_events_from_tile (name p) curr_tile (maze s))))"
    by blast
  show "\<exists>s'. move_persona n p d s = Inr s' \<and>
         calls (maze s') =
           calls (maze s) @
           [RemoveSubjectEvents (name p) curr_tile, AddEvent (get_curr_event_and_desc p) new_tile] @
           spec_object_calls p new_tile \<and>
         (planned_path p = [] \<longrightarrow>
            spec_object_calls p new_tile =
              [AddEvent (get_curr_obj_event_and_desc p) new_tile,
               RemoveEvent (idle_of (fst (get_curr_obj_event_and_desc p))) new_tile] \<and>
            map_of (game_obj_cleanup s') (get_curr_obj_event_and_desc p) = Some new_tile \<and>
            idle_of (fst (get_curr_obj_event_and_desc p)) \<notin> tiles (maze s') new_tile \<and>
            (get_curr_obj_event_and_desc p \<noteq> idle_of (fst (get_curr_obj_event_and_desc p)) \<longrightarrow>
               get_curr_obj_event_and_desc p \<in> tiles (maze s') new_tile)) \<and>
         (planned_path p \<noteq> [] \<longrightarrow>
            spec_object_calls p new_tile = [] \<and>
            game_obj_cleanup s' = game_obj_cleanup s \<and>
            tiles (maze s') =
              tiles (add_event_from_tile (get_curr_event_and_desc p) new_tile
                       (remove_subject_events_from_tile (name p) curr_tile (maze s))))"
  proof (intro exI[of _ s'] conjI impI)
    show "move_persona n p d s = Inr s'" by (rule r)
    show "calls (maze s') =
           calls (maze s) @
           [RemoveSubjectEvents (name p) curr_tile, AddEvent (get_curr_event_and_desc p) new_tile] @
           spec_object_calls p new_tile"
      by (simp add: k spec_move_calls_def)
  next
    assume a: "planned_path p = []"
    show "spec_object_calls p new_tile =
              [AddEvent (get_curr_obj_event_and_desc p) new_tile,
               RemoveEvent (idle_of (fst (get_curr_obj_event_and_desc p))) new_tile]"
      by (simp add: a spec_object_calls_def)
    show "map_of (game_obj_cleanup s') (get_curr_obj_event_and_desc p) = Some new_tile"
      by (simp add: l a update_conv')
    show "idle_of (fst (get_curr_obj_event_and_desc p)) \<notin> tiles (maze s') new_tile"
      by (simp add: m a remove_event_from_tile_def)
    assume "get_curr_obj_event_and_desc p \<noteq> idle_of (fst (get_curr_obj_event_and_desc p))"
    then show "get_curr_obj_event_and_desc p \<in> tiles (maze s') new_tile"
      by (simp add: m a remove_event_from_tile_def add_event_from_tile_def)
  next
    assume a: "planned_path p \<noteq> []"
    show "spec_object_calls p new_tile = []" by (simp add: a spec_object_calls_def)
    show "game_obj_cleanup s' = game_obj_cleanup s" by (simp add: l a)
    show "tiles (maze s') =
              tiles (add_event_from_tile (get_curr_event_and_desc p) new_tile
                       (remove_subject_events_from_tile (name p) curr_tile (maze s)))"
      by (simp add: m a)
  qed
next
  assume "distinct (map fst (personas s))"
  then show "calls (maze (state_of (tick X d s))) =
        calls (maze s) @ map idle_call (game_obj_cleanup s) @
        spec_phase_calls (personas s) (personas_tile s) d"
    by (rule tick_trace)
next
  assume "tick X d s = Inr s''"
  from tick_ledger[OF this] show "fst ` set (game_obj_cleanup s'') =
        get_curr_obj_event_and_desc ` {p \<in> snd ` set (personas s). planned_path p = []}"
    by (rule conjunct1)
qed

theorem arrival_spawns_object_event_witness:
  "map_of (personas_tile state0) ''Ada'' = Some (10, 10) \<and> map_of env0 ''Ada'' = Some (10, 10) \<and>
   planned_path ada = [] \<and>
   calls (maze (state_of (move_persona ''Ada'' ada env0 state0))) =
     [RemoveSubjectEvents ''Ada'' (10, 10),
      AddEvent (''Ada'', Some ''is'', Some ''cooking'', Some ''cooking soup'') (10, 10),
      AddEvent stove_event (10, 10),
      RemoveEvent (''kitchen:stove'', None, None, None) (10, 10)] \<and>
   game_obj_cleanup (state_of (move_persona ''Ada'' ada env0 state0)) = [(stove_event, (10, 10))] \<and>
   map_of (personas_tile state0) ''Bob'' = Some (2, 2) \<and> map_of env0 ''Bob'' = Some (2, 3) \<and>
   planned_path bob \<noteq> [] \<and>
   calls (maze (state_of (move_persona ''Bob'' bob env0 state0))) =
     [RemoveSubjectEvents ''Bob'' (2, 2),
      AddEvent (''Bob'', Some ''is'', Some ''walking'', Some ''walking home'') (2, 3)] \<and>
   game_obj_cleanup (state_of (move_persona ''Bob'' bob env0 state0)) = [] \<and>
   distinct (map fst (personas state0)) \<and>
   calls (maze (state_of (tick X_stay env0 state0))) =
     [RemoveSubjectEvents ''Ada'' (10, 10),
      AddEvent (''Ada'', Some ''is'', Some ''cooking'', Some ''cooking soup'') (10, 10),
      AddEvent stove_event (10, 10),
      RemoveEvent (''kitchen:stove'', None, None, None) (10, 10),
      RemoveSubjectEvents ''Bob'' (2, 2),
      AddEvent (''Bob'', Some ''is'', Some ''walking'', Some ''walking home'') (2, 3)] \<and>
   \<not> isl (tick X_stay env0 state0) \<and>
   fst ` set (game_obj_cleanup (projr (tick X_stay env0 state0))) = {stove_event}"
proof -
  have a: "map_of (personas_tile state0) ''Ada'' = Some (10, 10)" "map_of env0 ''Ada'' = Some (10, 10)"
    "planned_path ada = []"
    and b: "map_of (personas_tile state0) ''Bob'' = Some (2, 2)" "map_of env0 ''Bob'' = Some (2, 3)"
    "planned_path bob \<noteq> []"
    and d: "distinct (map fst (personas state0))"
    by (simp_all add: state0_def env0_def ada_def bob_def)
  note ada_moves = arrival_spawns_object_event[where s=state0 and n="''Ada''" and p=ada
      and curr_tile="(10, 10)" and new_tile="(10, 10)" and d=env0 and X=X_stay and s''=state0,
      THEN conjunct1]
  note bob_moves = arrival_spawns_object_event[where s=state0 and n="''Bob''" and p=bob
      and curr_tile="(2, 2)" and new_tile="(2, 3)" and d=env0 and X=X_stay and s''=state0,
      THEN conjunct1]
  note trace = arrival_spawns_object_event[where s=state0 and n="''Bob''" and p=bob
      and curr_tile="(2, 2)" and new_tile="(2, 3)" and d=env0 and X=X_stay and s''=state0,
      THEN conjunct2, THEN conjunct1]
  from ada_moves a obtain s1 where
    "move_persona ''Ada'' ada env0 state0 = Inr s1"
    "calls (maze s1) = calls (maze state0) @
       [RemoveSubjectEvents (name ada) (10, 10), AddEvent (get_curr_event_and_desc ada) (10, 10)] @
       spec_object_calls ada (10, 10)"
    "map_of (game_obj_cleanup s1) (get_curr_obj_event_and_desc ada) = Some (10, 10)"
    by auto
  then have 1: "calls (maze (state_of (move_persona ''Ada'' ada env0 state0))) =
     [RemoveSubjectEvents ''Ada'' (10, 10),
      AddEvent (''Ada'', Some ''is'', Some ''cooking'', Some ''cooking soup'') (10, 10),
      AddEvent stove_event (10, 10),
      RemoveEvent (''kitchen:stove'', None, None, None) (10, 10)]"
    by (simp add: state_of_def state0_def maze0_def ada_def spec_object_calls_def idle_of_def
        stove_event_def)
  have 2: "game_obj_cleanup (state_of (move_persona ''Ada'' ada env0 state0)) = [(stove_event, (10, 10))]"
    by (simp add: state_of_def move_persona_def state0_def env0_def ada_def Let_def)
  from bob_moves b obtain s2 where
    "move_persona ''Bob'' bob env0 state0 = Inr s2"
    "calls (maze s2) = calls (maze state0) @
       [RemoveSubjectEvents (name bob) (2, 2), AddEvent (get_curr_event_and_desc bob) (2, 3)] @
       spec_object_calls bob (2, 3)"
    "game_obj_cleanup s2 = game_obj_cleanup state0"
    by auto
  then have 3: "calls (maze (state_of (move_persona ''Bob'' bob env0 state0))) =
     [RemoveSubjectEvents ''Bob'' (2, 2),
      AddEvent (''Bob'', Some ''is'', Some ''walking'', Some ''walking home'') (2, 3)]"
    and 4: "game_obj_cleanup (state_of (move_persona ''Bob'' bob env0 state0)) = []"
    by (simp_all add: state_of_def state0_def maze0_def bob_def spec_object_calls_def)
  from trace d have 5: "calls (maze (state_of (tick X_stay env0 state0))) =
     [RemoveSubjectEvents ''Ada'' (10, 10),
      AddEvent (''Ada'', Some ''is'', Some ''cooking'', Some ''cooking soup'') (10, 10),
      AddEvent stove_event (10, 10),
      RemoveEvent (''kitchen:stove'', None, None, None) (10, 10),
      RemoveSubjectEvents ''Bob'' (2, 2),
      AddEvent (''Bob'', Some ''is'', Some ''walking'', Some ''walking home'') (2, 3)]"
    by (simp add: state0_def env0_def maze0_def ada_def bob_def spec_move_calls_def
        spec_object_calls_def idle_of_def stove_event_def)
  obtain s1 where t: "tick X_stay env0 state0 = Inr s1"
    by (simp add: ex_defs op_defs Let_def)
  note keys = arrival_spawns_object_event[where s=state0 and n="''Bob''" and p=bob
      and curr_tile="(2, 2)" and new_tile="(2, 3)" and d=env0 and X=X_stay and s''=s1,
      THEN conjunct2, THEN conjunct2]
  have "{p \<in> snd ` set (personas state0). planned_path p = []} = {ada}"
    by (auto simp: state0_def ada_def bob_def)
  with keys t have "fst ` set (game_obj_cleanup s1) = {stove_event}"
    by (simp add: ada_def)
  with t have 6: "\<not> isl (tick X_stay env0 state0)"
    and 7: "fst ` set (game_obj_cleanup (projr (tick X_stay env0 state0))) = {stove_event}"
    by simp_all
  from a b d 1 2 3 4 5 6 7 show ?thesis by (intro conjI)
qed

section \<open>Forking a simulation\<close>

lemma load_personas_frame:
  "load_personas names init_env t s = Inr s' \<Longrightarrow>
     fs s' = fs s \<and> fork_sim_code s' = fork_sim_code s \<and> sim_code s' = sim_code s \<and>
     step s' = step s \<and> curr_time s' = curr_time s \<and> sec_per_step s' = sec_per_step s"
proof (induction names arbitrary: s)
  case Nil
  then show ?case by simp
next
  case (Cons a names)
  from Cons.prems obtain s1 where
    "load_personas names init_env t s1 = Inr s'"
    "fs s1 = fs s \<and> fork_sim_code s1 = fork_sim_code s \<and> sim_code s1 = sim_code s \<and>
     step s1 = step s \<and> curr_time s1 = curr_time s \<and> sec_per_step s1 = sec_per_step s"
    by (auto simp: Let_def split: option.splits env_entry.splits)
  with Cons.IH[of s1] show ?case by simp
qed

lemma init_ignores_target: "init X A B fp store = init X A B fp (store(B := None))"
proof -
  have "(if store B \<noteq> None then store(B := None) else store) = store(B := None)"
    by (auto simp: fun_upd_idem)
  then show ?thesis by (simp add: init_def)
qed

lemma init_success:
  assumes "init X A B fp store = Inr s"
  shows "\<exists>t m. A \<noteq> B \<and> store A = Some t \<and> reverie_meta_json t = Some m \<and>
           fs s = store(B \<mapsto> t\<lparr>reverie_meta_json := Some (m\<lparr>meta_fork_sim_code := A\<rparr>)\<rparr>) \<and>
           fork_sim_code s = A \<and> sim_code s = B \<and> step s = meta_step m \<and>
           curr_time s = meta_curr_time m \<and> sec_per_step s = meta_sec_per_step m"
proof -
  let ?store1 = "store(B := None)"
  from assms have i: "init X A B fp ?store1 = Inr s" by (simp add: init_ignores_target[symmetric])
  have ne: "A \<noteq> B"
  proof
    assume "A = B"
    then have "copyanything A B ?store1 = Inl (FileNotFoundError A)" by (simp add: copyanything_def)
    with i show False by (simp add: init_def)
  qed
  from i obtain t where t: "store A = Some t"
    using ne by (cases "store A") (auto simp: init_def copyanything_def)
  from i t ne obtain m where m: "reverie_meta_json t = Some m"
    by (cases "reverie_meta_json t") (auto simp: init_def copyanything_def)
  let ?t' = "t\<lparr>reverie_meta_json := Some (m\<lparr>meta_fork_sim_code := A\<rparr>)\<rparr>"
  from i t m ne obtain init_env s0 where
    l: "load_personas (meta_persona_names m) init_env ?t' s0 = Inr s"
    and s0: "fs s0 = store(B \<mapsto> ?t')" "fork_sim_code s0 = A" "sim_code s0 = B" "step s0 = meta_step m"
      "curr_time s0 = meta_curr_time m" "sec_per_step s0 = meta_sec_per_step m"
    by (auto simp: init_def copyanything_def Let_def split: option.splits sum.splits)
  from load_personas_frame[OF l] s0 t m ne show ?thesis by simp
qed


lemma move_persona_overwrite:
  "move_persona n p d (overwrite_folder c x s) =
     map_sum (apsnd (overwrite_folder c x)) (overwrite_folder c x) (move_persona n p d s)"
  by (simp add: move_persona_def overwrite_folder_def Let_def split: option.splits)

lemma move_personas_overwrite:
  "move_personas ps d (overwrite_folder c x s) =
     map_sum (apsnd (overwrite_folder c x)) (overwrite_folder c x) (move_personas ps d s)"
proof (induction ps arbitrary: s)
  case Nil
  then show ?case by simp
next
  case (Cons a ps)
  obtain n p where a: "a = (n, p)" by (cases a)
  show ?case
    using Cons.IH by (cases "move_persona n p d s") (simp_all add: a move_persona_overwrite)
qed

lemma decide_persona_overwrite:
  "decide_persona X n p (overwrite_folder c x s) mv =
     map_sum (apsnd (overwrite_folder c x)) (apfst (overwrite_folder c x)) (decide_persona X n p s mv)"
  by (simp add: decide_persona_def overwrite_folder_def Let_def
      split: option.splits sum.splits prod.splits)

lemma decide_personas_overwrite:
  "decide_personas X ps (overwrite_folder c x s) mv =
     map_sum (apsnd (overwrite_folder c x)) (apfst (overwrite_folder c x)) (decide_personas X ps s mv)"
proof (induction ps arbitrary: s mv)
  case Nil
  then show ?case by simp
next
  case (Cons a ps)
  obtain n p where a: "a = (n, p)" by (cases a)
  show ?case
  proof (cases "decide_persona X n p s mv")
    case (Inl r)
    then show ?thesis by (simp add: a decide_persona_overwrite)
  next
    case (Inr r)
    then show ?thesis using Cons.IH by (cases r) (simp add: a decide_persona_overwrite)
  qed
qed

lemma write_movement_other:
  "code \<noteq> c \<Longrightarrow> write_movement code stp ms (F(c := x)) = (write_movement code stp ms F)(c := x)"
  by (auto simp: write_movement_def Let_def)


lemma tick_overwrite:
  assumes "sim_code s \<noteq> c"
  shows "tick X d (overwrite_folder c x s) =
           map_sum (apsnd (overwrite_folder c x)) (overwrite_folder c x) (tick X d s)"
proof -
  let ?g = "overwrite_folder c x"
  let ?s1 = "s\<lparr>maze := cleanup (game_obj_cleanup s) (maze s), game_obj_cleanup := []\<rparr>"
  have pre: "(?g s)\<lparr>maze := cleanup (game_obj_cleanup (?g s)) (maze (?g s)), game_obj_cleanup := []\<rparr>
               = ?g ?s1"
    "personas (?g ?s1) = personas ?s1" "personas (?g s) = personas s" "personas ?s1 = personas s"
    by (simp_all add: overwrite_folder_def)
  show ?thesis
  proof (cases "move_personas (personas ?s1) d ?s1")
    case (Inl r)
    then show ?thesis
      using move_personas_overwrite[of "personas ?s1" d c x ?s1]
      by (simp add: tick_def Let_def pre del: move_personas.simps)
  next
    case m: (Inr s2)
    have sc2: "sim_code s2 \<noteq> c" using move_personas_frame[OF m] assms by simp
    have m': "move_personas (personas ?s1) d (?g ?s1) = Inr (?g s2)"
      using move_personas_overwrite[of "personas ?s1" d c x ?s1] m by simp
    have p2: "personas (?g s2) = personas s2" by (simp add: overwrite_folder_def)
    show ?thesis
    proof (cases "decide_personas X (personas s2) s2 []")
      case (Inl r)
      then show ?thesis
        using decide_personas_overwrite[of X "personas s2" c x s2 "[]"] m m'
        by (simp add: tick_def Let_def pre p2)
    next
      case (Inr r)
      obtain s3 mv where r: "r = (s3, mv)" by (cases r)
      have sc3: "sim_code s3 \<noteq> c" using decide_personas_frame[OF Inr[unfolded r]] sc2 by simp
      have d': "decide_personas X (personas s2) (?g s2) [] = Inr (?g s3, mv)"
        using decide_personas_overwrite[of X "personas s2" c x s2 "[]"] Inr r by simp
      have tail: "tick X d s =
          (let ms = \<lparr>mvs_persona = mv, mvs_meta_curr_time = curr_time s3\<rparr>;
               s4 = s3\<lparr>backend_data := (backend_data s3)\<lparr>bd_time := curr_time s3\<rparr>\<rparr>;
               s5 = s4\<lparr>fs := write_movement (sim_code s4) (step s4) ms (fs s4)\<rparr>;
               s6 = s5\<lparr>step := step s5 + 1\<rparr>
           in case datetime_add (curr_time s6) (sec_per_step s6) of
                Inl e \<Rightarrow> Inl (e, s6)
              | Inr t \<Rightarrow> Inr (s6\<lparr>curr_time := t\<rparr>))"
        using m Inr r by (simp add: tick_def Let_def)
      have tail': "tick X d (?g s) =
          (let ms = \<lparr>mvs_persona = mv, mvs_meta_curr_time = curr_time (?g s3)\<rparr>;
               s4 = (?g s3)\<lparr>backend_data := (backend_data (?g s3))\<lparr>bd_time := curr_time (?g s3)\<rparr>\<rparr>;
               s5 = s4\<lparr>fs := write_movement (sim_code s4) (step s4) ms (fs s4)\<rparr>;
               s6 = s5\<lparr>step := step s5 + 1\<rparr>
           in case datetime_add (curr_time s6) (sec_per_step s6) of
                Inl e \<Rightarrow> Inl (e, s6)
              | Inr t \<Rightarrow> Inr (s6\<lparr>curr_time := t\<rparr>))"
        using m' d' by (simp add: tick_def Let_def pre p2)
      show ?thesis
        unfolding tail tail' using sc3
        by (simp add: Let_def overwrite_folder_def write_movement_other split: sum.splits)
    qed
  qed
qed

lemma headless_overwrite:
  assumes "sim_code s \<noteq> c"
  shows "headless b (overwrite_folder c x s) =
           map_sum (apsnd (overwrite_folder c x))
             (\<lambda>(fd, b', s'). (fd, b', overwrite_folder c x s')) (headless b s)"
  using assms
  by (auto simp: headless_def sim_frontend_def overwrite_folder_def Let_def fun_upd_twist
      split: sum.splits option.splits)

lemma headless_sim_code:
  "headless b s = Inr (fd, b', s') \<Longrightarrow> sim_code s' = sim_code s"
  by (auto simp: headless_def split: sum.splits)

lemma tick_sim_code: "tick X d s = Inr s' \<Longrightarrow> sim_code s' = sim_code s"
  using tick_writes_movement[of X d s s'] by blast

lemma server_loop_overwrite:
  "sim_code s \<noteq> c \<Longrightarrow>
     server_loop fuel headless X b n (overwrite_folder c x s) =
       overwrite_folder_outcome c x (server_loop fuel headless X b n s)"
proof (induction fuel arbitrary: b n s)
  case 0
  then show ?case by (simp add: overwrite_folder_outcome_def)
next
  case (Suc fuel)
  show ?case
  proof (cases "n = 0")
    case True
    then show ?thesis by (simp add: overwrite_folder_outcome_def)
  next
    case n: False
    show ?thesis
    proof (cases "headless b s")
      case (Inl r)
      then show ?thesis
        using n headless_overwrite[OF Suc.prems, of b x]
        by (cases r) (simp add: overwrite_folder_outcome_def)
    next
      case (Inr r)
      obtain fd b' s1 where r: "r = (fd, b', s1)" by (cases r)
      from headless_frame[OF Inr[unfolded r]] obtain d where fd: "fd = Some d" by auto
      have sc1: "sim_code s1 \<noteq> c" using headless_sim_code[OF Inr[unfolded r]] Suc.prems by simp
      have h': "headless b (overwrite_folder c x s) = Inr (Some d, b', overwrite_folder c x s1)"
        using headless_overwrite[OF Suc.prems, of b x] Inr r fd by simp
      show ?thesis
      proof (cases "tick X d s1")
        case (Inl q)
        then show ?thesis
          using n Inr r fd h' tick_overwrite[OF sc1, of X d x]
          by (cases q) (simp add: on_frontend_data_def overwrite_folder_outcome_def)
      next
        case tk: (Inr s2)
        have sc2: "sim_code s2 \<noteq> c" using tick_sim_code[OF tk] sc1 by simp
        have "tick X d (overwrite_folder c x s1) = Inr (overwrite_folder c x s2)"
          using tick_overwrite[OF sc1, of X d x] tk by simp
        then show ?thesis
          using n Inr r fd h' tk Suc.IH[OF sc2, of b' "n - 1"]
          by (simp add: on_frontend_data_def)
      qed
    qed
  qed
qed

lemma start_server_overwrite:
  assumes "sim_code s \<noteq> c"
  shows "start_server fuel X n (overwrite_folder c x s) =
       overwrite_folder_outcome c x (start_server fuel X n s)"
proof -
  let ?s0 = "s\<lparr>backend_data := \<lparr>bd_time = curr_time s, bd_persona = copy_items (frontend_pos s) []\<rparr>,
         game_obj_cleanup := []\<rparr>"
  have e: "(overwrite_folder c x s)\<lparr>backend_data := \<lparr>bd_time = curr_time (overwrite_folder c x s),
              bd_persona = copy_items (frontend_pos (overwrite_folder c x s)) []\<rparr>,
         game_obj_cleanup := []\<rparr> = overwrite_folder c x ?s0"
    by (simp add: overwrite_folder_def)
  have "sim_code ?s0 \<noteq> c" using assms by simp
  from server_loop_overwrite[OF this, of fuel X "()" n x] show ?thesis
    unfolding start_server_def start_server_with_def e .
qed

lemma init_replaces_target:
  assumes "A \<noteq> B" and "store A = Some t"
  shows "\<exists>t'. storage_after (init X A B fp store) B = Some t' \<and>
           environment_dir t' = environment_dir t \<and> movement_dir t' = movement_dir t \<and>
           personas_dir t' = personas_dir t"
proof -
  have c: "copyanything A B (store(B := None)) = Inr (store(B \<mapsto> t))"
    using assms by (simp add: copyanything_def)
  show ?thesis
    unfolding init_ignores_target[of X A B fp store]
    using c by (auto simp: init_def storage_after_def Let_def dest!: load_personas_frame
        split: option.splits sum.splits)
qed

lemma init_without_source:
  assumes "A = B \<or> store A = None"
  shows "init X A B fp store = Inl (FileNotFoundError A, store(B := None))"
proof -
  have "copyanything A B (store(B := None)) = Inl (FileNotFoundError A)"
    using assms by (auto simp: copyanything_def)
  then show ?thesis
    unfolding init_ignores_target[of X A B fp store] by (simp add: init_def)
qed

lemmas init_defs = init_def copyanything_def storage_after_def store1_def older_tree_def

text \<open>
  Claim C4, as amended. The constructor has no snapshot conflict: a target folder that
  exists is removed first, so construction goes as if the target had not existed. With a
  source other than the target, the target then holds the environment files, movement
  files and persona folders of the source, whether the rest of the construction succeeds
  or not; without a source (or with the source as its own target) the construction fails
  for the missing source, and the target that existed is gone. The claim as stated has the
  construction fail and the target unchanged; in the counterexample the construction
  succeeds and the movement file of the old target is no longer there.
\<close>

theorem existing_target_is_replaced:
  "init X A B fp store = init X A B fp (store(B := None)) \<and>
   (A \<noteq> B \<and> store A = Some t \<longrightarrow>
      (\<exists>t'. storage_after (init X A B fp store) B = Some t' \<and>
         environment_dir t' = environment_dir t \<and> movement_dir t' = movement_dir t \<and>
         personas_dir t' = personas_dir t)) \<and>
   (A = B \<or> store A = None \<longrightarrow>
      init X A B fp store = Inl (FileNotFoundError A, store(B := None)))"
  using init_ignores_target[of X A B fp store] init_replaces_target[of A B store t X fp]
    init_without_source[of A B store X fp]
  by blast

theorem existing_target_is_replaced_witness:
  "''base'' \<noteq> ''trial1'' \<and> store1 ''base'' = Some base_tree \<and>
   store1 ''trial1'' = Some older_tree \<and>
   movement_dir (the (storage_after (init X_stay ''base'' ''trial1'' [] store1) ''trial1''))
     = movement_dir base_tree \<and>
   store1 ''nowhere'' = None \<and>
   storage_after (init X_stay ''nowhere'' ''trial1'' [] store1) ''trial1'' = None"
proof -
  have a: "''base'' \<noteq> ''trial1''" "store1 ''base'' = Some base_tree"
    "store1 ''trial1'' = Some older_tree" "store1 ''nowhere'' = None"
    by (simp_all add: store1_def)
  note t = existing_target_is_replaced[where X=X_stay and A="''base''" and B="''trial1''"
      and fp="[]" and store=store1 and t=base_tree, THEN conjunct2, THEN conjunct1]
  note n = existing_target_is_replaced[where X=X_stay and A="''nowhere''" and B="''trial1''"
      and fp="[]" and store=store1 and t=base_tree, THEN conjunct2, THEN conjunct2]
  from t a have 1: "movement_dir (the (storage_after (init X_stay ''base'' ''trial1'' [] store1)
      ''trial1'')) = movement_dir base_tree"
    by auto
  from n a have 2: "storage_after (init X_stay ''nowhere'' ''trial1'' [] store1) ''trial1'' = None"
    by (simp add: storage_after_def)
  from a 1 2 show ?thesis by simp
qed

theorem snapshot_conflict_counterexample:
  "\<not> isl (init X_stay ''base'' ''trial1'' [] store1) \<and>
   store1 ''trial1'' = Some older_tree \<and>
   movement_dir older_tree 0 \<noteq> None \<and>
   movement_dir (the (fs (projr (init X_stay ''base'' ''trial1'' [] store1)) ''trial1'')) 0 = None"
proof -
  obtain s where "init X_stay ''base'' ''trial1'' [] store1 = Inr s"
    "movement_dir (the (fs s ''trial1'')) 0 = None"
    by (simp add: init_defs ex_defs Let_def)
  then show ?thesis by (simp add: store1_def older_tree_def)
qed

text \<open>
  Claim C5. A successful construction from source \<open>A\<close> into target \<open>B\<close> (the two are
  then different, and \<open>A\<close> exists with its metadata) leaves under \<open>B\<close> the whole tree
  of \<open>A\<close>, metadata, environment files, movement files and persona folders, with the fork
  field of the metadata set to \<open>A\<close>; \<open>A\<close> and every other folder are as before. The
  two trees are separate values: overwriting or deleting the folder of \<open>A\<close> leaves that
  of \<open>B\<close> as it is, and the other way round. A run of the constructed server neither
  reads nor writes \<open>A\<close>: running after \<open>A\<close> was overwritten or deleted gives the
  outcome of running first, with \<open>A\<close> overwritten or deleted afterwards.
\<close>

theorem fork_copies_tree_without_sharing:
  assumes "init X A B fp store = Inr s"
  shows "\<exists>t m. A \<noteq> B \<and> store A = Some t \<and> reverie_meta_json t = Some m \<and>
           fs s B = Some (t\<lparr>reverie_meta_json := Some (m\<lparr>meta_fork_sim_code := A\<rparr>)\<rparr>) \<and>
           fs s A = Some t \<and>
           (\<forall>c. c \<noteq> B \<longrightarrow> fs s c = store c) \<and>
           fs (overwrite_folder A x s) B = fs s B \<and>
           fs (overwrite_folder B y s) A = fs s A \<and>
           start_server fuel X' n (overwrite_folder A x s) =
             overwrite_folder_outcome A x (start_server fuel X' n s)"
proof -
  from init_success[OF assms] obtain t m where
    ne: "A \<noteq> B" and t: "store A = Some t" and m: "reverie_meta_json t = Some m"
    and f: "fs s = store(B \<mapsto> t\<lparr>reverie_meta_json := Some (m\<lparr>meta_fork_sim_code := A\<rparr>)\<rparr>)"
    and sc: "sim_code s = B"
    by blast
  have run: "start_server fuel X' n (overwrite_folder A x s) =
             overwrite_folder_outcome A x (start_server fuel X' n s)"
    using ne sc by (intro start_server_overwrite) simp
  have "fs s B = Some (t\<lparr>reverie_meta_json := Some (m\<lparr>meta_fork_sim_code := A\<rparr>)\<rparr>)"
    "fs s A = Some t" "\<forall>c. c \<noteq> B \<longrightarrow> fs s c = store c"
    "fs (overwrite_folder A x s) B = fs s B" "fs (overwrite_folder B y s) A = fs s A"
    using ne t by (simp_all add: f overwrite_folder_def)
  with ne t m run show ?thesis by blast
qed

theorem fork_copies_tree_without_sharing_witness:
  "\<not> isl (init X_stay ''base'' ''trial1'' [] store1) \<and>
   fs (projr (init X_stay ''base'' ''trial1'' [] store1)) ''trial1'' = Some base_tree \<and>
   fs (projr (init X_stay ''base'' ''trial1'' [] store1)) ''base'' = Some base_tree \<and>
   start_server 1 X_stay 1
       (overwrite_folder ''base'' None (projr (init X_stay ''base'' ''trial1'' [] store1))) =
     overwrite_folder_outcome ''base'' None
       (start_server 1 X_stay 1 (projr (init X_stay ''base'' ''trial1'' [] store1))) \<and>
   (case start_server 1 X_stay 1
           (overwrite_folder ''base'' None (projr (init X_stay ''base'' ''trial1'' [] store1))) of
      Returned s \<Rightarrow> step s = 1 \<and> fs s ''base'' = None
    | Raised e s \<Rightarrow> False
    | Out_Of_Fuel c s \<Rightarrow> False)"
proof -
  obtain s where i: "init X_stay ''base'' ''trial1'' [] store1 = Inr s"
    and r: "(case start_server 1 X_stay 1 (overwrite_folder ''base'' None s) of
      Returned s \<Rightarrow> step s = 1 \<and> fs s ''base'' = None
    | Raised e s \<Rightarrow> False
    | Out_Of_Fuel c s \<Rightarrow> False)"
    by (simp add: init_defs ex_defs op_defs overwrite_folder_def Let_def)
  from fork_copies_tree_without_sharing[OF i, where x=None and y=None and fuel=1 and X'=X_stay
      and n=1]
  obtain t m where "store1 ''base'' = Some t" "reverie_meta_json t = Some m"
    "fs s ''trial1'' = Some (t\<lparr>reverie_meta_json := Some (m\<lparr>meta_fork_sim_code := ''base''\<rparr>)\<rparr>)"
    "fs s ''base'' = Some t"
    "start_server 1 X_stay 1 (overwrite_folder ''base'' None s) =
       overwrite_folder_outcome ''base'' None (start_server 1 X_stay 1 s)"
    by blast
  then have "fs s ''trial1'' = Some base_tree" "fs s ''base'' = Some base_tree"
    "start_server 1 X_stay 1 (overwrite_folder ''base'' None s) =
       overwrite_folder_outcome ''base'' None (start_server 1 X_stay 1 s)"
    by (auto simp: store1_def base_tree_def)
  with i r show ?thesis by simp
qed

end
